theory Spec2Isabelle
  imports Main
begin

section \<open>Interval overlap (q1.js)\<close>

text \<open>
  \<^verbatim>\<open>q1(x1, x2, x3, x4)\<close> only compares its arguments (\<^verbatim>\<open><\<close>, \<^verbatim>\<open>>\<close>, \<^verbatim>\<open>==\<close>); it does no
  arithmetic. On numbers that are points of the x-axis these comparisons are those of a
  linear order, so the function is modelled over any linearly ordered type (integers,
  rationals, reals; the finite doubles are a subset of the reals and compare exactly).
  NaN, which compares false with everything, is not a point of the axis and is not
  modelled.

  The two \<^verbatim>\<open>if\<close> blocks that swap reversed endpoints become the two \<open>let\<close> bindings;
  the three tests that follow keep their order.
\<close>

definition q1 :: "'a::linorder \<Rightarrow> 'a \<Rightarrow> 'a \<Rightarrow> 'a \<Rightarrow> bool" where
  "q1 x1 x2 x3 x4 =
     (let (x1, x2) = (if x2 < x1 then (x2, x1) else (x1, x2));
          (x3, x4) = (if x4 < x3 then (x4, x3) else (x3, x4))
      in if x1 = x3 \<or> x1 = x4 \<or> x2 = x3 \<or> x2 = x4 then True
         else if x3 > x1 \<and> x2 > x3 then True
         else if x1 > x3 \<and> x4 > x1 then True
         else False)"

section \<open>The cache with expiry (q3.js): data\<close>

text \<open>
  JavaScript objects are mutable and shared by reference: the index \<^verbatim>\<open>this.cache\<close> and the
  links \<^verbatim>\<open>prev\<close>/\<^verbatim>\<open>next\<close> all point to the same \<^verbatim>\<open>Node\<close> objects, and the constructor of
  \<^verbatim>\<open>CanadaLRU\<close> copies references of another cache. The model therefore has an explicit
  store: nodes live at addresses, cache objects at object identifiers, and pending timers
  (the handles \<^verbatim>\<open>setTimeout\<close> returns) in a table of their own. Objects are never
  deallocated.
\<close>

type_synonym addr = nat
type_synonym oid = nat
type_synonym tid = nat

text \<open>The two exceptions the code can raise by itself.\<close>

datatype error = TypeError | ReferenceError | RangeError

text \<open>What a method call evaluates to. No method of the cache has a \<^verbatim>\<open>return\<close> with a
  value except \<^verbatim>\<open>isAtLimit\<close> and \<^verbatim>\<open>clone\<close>; a constructor evaluates to the new object.\<close>

datatype jsval = Undefined | Boolean bool | NodeRef addr | ObjectRef oid

text \<open>\<^verbatim>\<open>class Node\<close>: \<^verbatim>\<open>null\<close> is \<open>None\<close>.\<close>

record 'v node =
  n_key :: string
  n_val :: 'v
  n_prev :: "addr option"
  n_next :: "addr option"
  n_timeout :: "tid option"

text \<open>
  A pending timer: the callback \<^verbatim>\<open>() => { this.remove(key) }\<close> is determined by the cache
  and the key it closes over; the table also keeps when the timer was armed and the delay
  that was passed to \<^verbatim>\<open>setTimeout\<close>.
\<close>

record timer =
  t_owner :: oid
  t_key :: string
  t_armed :: int
  t_delay :: int

datatype cls = LRU | GlobalLRU | CanadaLRU | USALRU

text \<open>
  The fields of \<^verbatim>\<open>class LRU\<close> and of its subclasses (\<^verbatim>\<open>lrus\<close> of \<^verbatim>\<open>GlobalLRU\<close>;
  \<^verbatim>\<open>lruKey\<close> and \<^verbatim>\<open>globalLRU\<close> of the regions). \<^verbatim>\<open>this.cache\<close> holds its own properties
  as a map; \<^verbatim>\<open>this.lrus\<close> as an association list in the order \<^verbatim>\<open>Object.keys\<close> lists them
  (insertion order; region identifiers that are array indices, which JavaScript lists
  first, are not distinguished).
\<close>

record lru =
  lru_class :: cls
  lru_length :: int
  lru_limit :: int
  lru_timeLimit :: int
  lru_head :: "addr option"
  lru_tail :: "addr option"
  lru_cache :: "string \<rightharpoonup> addr"
  lru_lruKey :: "string option"
  lru_globalLRU :: "oid option"
  lru_lrus :: "(string \<times> oid) list"

record 'v world =
  w_nodes :: "addr \<rightharpoonup> 'v node"
  w_next_addr :: addr
  w_objs :: "oid \<rightharpoonup> lru"
  w_next_oid :: oid
  w_timers :: "tid \<rightharpoonup> timer"
  w_next_tid :: tid
  w_now :: int

definition empty_world :: "'v world" where
  "empty_world = \<lparr>w_nodes = Map.empty, w_next_addr = 0, w_objs = Map.empty, w_next_oid = 0,
                   w_timers = Map.empty, w_next_tid = 0, w_now = 0\<rparr>"

text \<open>
  A call completes with a value, or throws; in both cases the mutations made so far
  stay.
\<close>

datatype 'v outcome = Done jsval "'v world" | Threw error "'v world"

fun world_of :: "'v outcome \<Rightarrow> 'v world" where
  "world_of (Done r w) = w"
| "world_of (Threw e w) = w"

fun value_of :: "'v outcome \<Rightarrow> jsval option" where
  "value_of (Done r w) = Some r"
| "value_of (Threw e w) = None"

text \<open>Sequencing of statements: what follows a call runs only if the call did not throw.\<close>

fun andThen :: "'v outcome \<Rightarrow> ('v world \<Rightarrow> 'v outcome) \<Rightarrow> 'v outcome" where
  "andThen (Done r w) f = f w"
| "andThen (Threw e w) f = Threw e w"

section \<open>The cache with expiry (q3.js): primitives\<close>

definition new_Node :: "'v node \<Rightarrow> 'v world \<Rightarrow> addr \<times> 'v world" where
  "new_Node n w =
     (w_next_addr w, w\<lparr>w_nodes := (w_nodes w)(w_next_addr w \<mapsto> n),
                        w_next_addr := Suc (w_next_addr w)\<rparr>)"

definition set_next :: "addr \<Rightarrow> addr option \<Rightarrow> 'v world \<Rightarrow> 'v world" where
  "set_next a v w =
     w\<lparr>w_nodes := (w_nodes w)(a := map_option (\<lambda>n. n\<lparr>n_next := v\<rparr>) (w_nodes w a))\<rparr>"

definition set_prev :: "addr \<Rightarrow> addr option \<Rightarrow> 'v world \<Rightarrow> 'v world" where
  "set_prev a v w =
     w\<lparr>w_nodes := (w_nodes w)(a := map_option (\<lambda>n. n\<lparr>n_prev := v\<rparr>) (w_nodes w a))\<rparr>"

definition upd_obj :: "oid \<Rightarrow> (lru \<Rightarrow> lru) \<Rightarrow> 'v world \<Rightarrow> 'v world" where
  "upd_obj this f w = w\<lparr>w_objs := (w_objs w)(this := map_option f (w_objs w this))\<rparr>"

text \<open>\<^verbatim>\<open>setTimeout(() => { this.remove(key) }, delay)\<close> and \<^verbatim>\<open>clearTimeout(handle)\<close>.\<close>

definition setTimeout :: "oid \<Rightarrow> string \<Rightarrow> int \<Rightarrow> 'v world \<Rightarrow> tid \<times> 'v world" where
  "setTimeout this key delay w =
     (w_next_tid w,
      w\<lparr>w_timers := (w_timers w)(w_next_tid w \<mapsto>
            \<lparr>t_owner = this, t_key = key, t_armed = w_now w, t_delay = delay\<rparr>),
        w_next_tid := Suc (w_next_tid w)\<rparr>)"

definition clearTimeout :: "tid option \<Rightarrow> 'v world \<Rightarrow> 'v world" where
  "clearTimeout h w = (case h of None \<Rightarrow> w | Some t \<Rightarrow> w\<lparr>w_timers := (w_timers w)(t := None)\<rparr>)"

text \<open>
  \<^verbatim>\<open>this.cache = {}\<close> is a plain object, so \<^verbatim>\<open>this.cache[key]\<close> also finds what
  \<^verbatim>\<open>Object.prototype\<close> provides: functions, and for \<^verbatim>\<open>__proto__\<close> the prototype itself.
  All of them are truthy and none has a \<^verbatim>\<open>prev\<close> field.
\<close>

definition Object_prototype_keys :: "string list" where
  "Object_prototype_keys =
     [''constructor'', ''__defineGetter__'', ''__defineSetter__'', ''hasOwnProperty'',
      ''__lookupGetter__'', ''__lookupSetter__'', ''isPrototypeOf'', ''propertyIsEnumerable'',
      ''toString'', ''valueOf'', ''__proto__'', ''toLocaleString'']"

datatype lookup = Missing | OwnNode addr | Inherited

definition cache_lookup :: "lru \<Rightarrow> string \<Rightarrow> lookup" where
  "cache_lookup obj key =
     (case lru_cache obj key of
        Some a \<Rightarrow> OwnNode a
      | None \<Rightarrow> if key \<in> set Object_prototype_keys then Inherited else Missing)"

section \<open>The cache with expiry (q3.js): class LRU\<close>

text \<open>\<^verbatim>\<open>constructor(limit = 10, timeLimit = 60000)\<close>: an omitted argument is \<open>None\<close>.\<close>

definition LRU_fields :: "cls \<Rightarrow> int option \<Rightarrow> int option \<Rightarrow> lru" where
  "LRU_fields c limit timeLimit =
     \<lparr>lru_class = c, lru_length = 0,
      lru_limit = (case limit of None \<Rightarrow> 10 | Some l \<Rightarrow> l),
      lru_timeLimit = (case timeLimit of None \<Rightarrow> 60000 | Some t \<Rightarrow> t),
      lru_head = None, lru_tail = None, lru_cache = Map.empty,
      lru_lruKey = None, lru_globalLRU = None, lru_lrus = []\<rparr>"

definition new_object :: "lru \<Rightarrow> 'v world \<Rightarrow> oid \<times> 'v world" where
  "new_object obj w =
     (w_next_oid w, w\<lparr>w_objs := (w_objs w)(w_next_oid w \<mapsto> obj),
                       w_next_oid := Suc (w_next_oid w)\<rparr>)"

definition new_LRU :: "int option \<Rightarrow> int option \<Rightarrow> 'v world \<Rightarrow> 'v outcome" where
  "new_LRU limit timeLimit w =
     (let (this, w) = new_object (LRU_fields LRU limit timeLimit) w
      in Done (ObjectRef this) w)"

text \<open>
  \<^verbatim>\<open>remove(key)\<close>. For a key that only \<^verbatim>\<open>Object.prototype\<close> provides, \<^verbatim>\<open>node\<close> is truthy,
  \<^verbatim>\<open>node.prev\<close> is \<^verbatim>\<open>undefined\<close>, which is not \<^verbatim>\<open>null\<close>, and the assignment to
  \<^verbatim>\<open>node.prev.next\<close> throws a TypeError. The first assignment never changes a field of
  \<^verbatim>\<open>node\<close> itself (if \<^verbatim>\<open>node.prev\<close> is \<^verbatim>\<open>node\<close>, it assigns \<^verbatim>\<open>node.next\<close> to itself), so
  the fields read for the second one are those read at the start.
\<close>

definition LRU_remove :: "oid \<Rightarrow> string \<Rightarrow> 'v world \<Rightarrow> 'v outcome" where
  "LRU_remove this key w =
     (case w_objs w this of
        None \<Rightarrow> Threw TypeError w
      | Some obj \<Rightarrow>
         (case cache_lookup obj key of
            Missing \<Rightarrow> Done Undefined w
          | Inherited \<Rightarrow> Threw TypeError w
          | OwnNode a \<Rightarrow>
             (case w_nodes w a of
                None \<Rightarrow> Threw TypeError w
              | Some node \<Rightarrow>
                 let w = clearTimeout (n_timeout node) w;
                     w = (case n_prev node of
                            Some p \<Rightarrow> set_next p (n_next node) w
                          | None \<Rightarrow> upd_obj this (\<lambda>obj. obj\<lparr>lru_head := n_next node\<rparr>) w);
                     w = (case n_next node of
                            Some q \<Rightarrow> set_prev q (n_prev node) w
                          | None \<Rightarrow> upd_obj this (\<lambda>obj. obj\<lparr>lru_tail := n_prev node\<rparr>) w);
                     w = upd_obj this (\<lambda>obj. obj\<lparr>lru_cache := (lru_cache obj)(key := None)\<rparr>) w;
                     w = upd_obj this (\<lambda>obj. obj\<lparr>lru_length := lru_length obj - 1\<rparr>) w
                 in Done Undefined w)))"

definition LRU_isAtLimit :: "lru \<Rightarrow> bool" where
  "LRU_isAtLimit obj = (lru_length obj = lru_limit obj)"

text \<open>
  \<^verbatim>\<open>write(key, val, timeLimit = null)\<close>. \<^verbatim>\<open>timeLimit || this.timeLimit\<close> takes the default for
  \<^verbatim>\<open>null\<close> (\<open>None\<close>) and for \<open>0\<close>. \<^verbatim>\<open>this.tail.key\<close> with no tail and \<^verbatim>\<open>this.head.prev\<close>
  with no head throw a TypeError.
\<close>

definition LRU_write :: "oid \<Rightarrow> string \<Rightarrow> 'v \<Rightarrow> int option \<Rightarrow> 'v world \<Rightarrow> 'v outcome" where
  "LRU_write this key val timeLimit w =
     andThen
       (case w_objs w this of
          None \<Rightarrow> Threw TypeError w
        | Some obj \<Rightarrow>
            if cache_lookup obj key \<noteq> Missing then LRU_remove this key w else Done Undefined w)
    (\<lambda>w. andThen
       (case w_objs w this of
          None \<Rightarrow> Threw TypeError w
        | Some obj \<Rightarrow>
            if LRU_isAtLimit obj then
              (case lru_tail obj of
                 None \<Rightarrow> Threw TypeError w
               | Some t \<Rightarrow>
                  (case w_nodes w t of
                     None \<Rightarrow> Threw TypeError w
                   | Some tn \<Rightarrow> LRU_remove this (n_key tn) w))
            else Done Undefined w)
    (\<lambda>w. case w_objs w this of
          None \<Rightarrow> Threw TypeError w
        | Some obj \<Rightarrow>
            let timeoutTime = (case timeLimit of
                                 None \<Rightarrow> lru_timeLimit obj
                               | Some t \<Rightarrow> if t = 0 then lru_timeLimit obj else t);
                (timeout, w) = setTimeout this key timeoutTime w
            in if lru_length obj = 0 then
                 let (a, w) = new_Node \<lparr>n_key = key, n_val = val, n_prev = None,
                                         n_next = None, n_timeout = Some timeout\<rparr> w;
                     w = upd_obj this (\<lambda>obj. obj\<lparr>lru_head := Some a\<rparr>) w;
                     w = upd_obj this (\<lambda>obj. obj\<lparr>lru_tail := Some a\<rparr>) w;
                     w = upd_obj this (\<lambda>obj. obj\<lparr>lru_cache := (lru_cache obj)(key := lru_head obj)\<rparr>) w;
                     w = upd_obj this (\<lambda>obj. obj\<lparr>lru_length := lru_length obj + 1\<rparr>) w
                 in Done Undefined w
               else
                 let (a, w) = new_Node \<lparr>n_key = key, n_val = val, n_prev = None,
                                         n_next = lru_head obj, n_timeout = Some timeout\<rparr> w
                 in (case lru_head obj of
                       None \<Rightarrow> Threw TypeError w
                     | Some h \<Rightarrow>
                        let w = set_prev h (Some a) w;
                            w = upd_obj this (\<lambda>obj. obj\<lparr>lru_head := Some a\<rparr>) w;
                            w = upd_obj this (\<lambda>obj. obj\<lparr>lru_cache := (lru_cache obj)(key := lru_head obj)\<rparr>) w;
                            w = upd_obj this (\<lambda>obj. obj\<lparr>lru_length := lru_length obj + 1\<rparr>) w
                        in Done Undefined w)))"

section \<open>The cache with expiry (q3.js): the hub and the regions\<close>

text \<open>
  \<^verbatim>\<open>updateWrite(key, val, timeLimit)\<close> of \<^verbatim>\<open>CanadaLRU\<close> and \<^verbatim>\<open>USALRU\<close> is
  \<^verbatim>\<open>super.write(key, val, timeLimit)\<close>. The classes \<^verbatim>\<open>LRU\<close> and \<^verbatim>\<open>GlobalLRU\<close> have no such
  method, so calling it on one of their objects throws a TypeError.
\<close>

definition updateWrite :: "oid \<Rightarrow> string \<Rightarrow> 'v \<Rightarrow> int option \<Rightarrow> 'v world \<Rightarrow> 'v outcome" where
  "updateWrite this key val timeLimit w =
     (case w_objs w this of
        None \<Rightarrow> Threw TypeError w
      | Some obj \<Rightarrow>
         (case lru_class obj of
            CanadaLRU \<Rightarrow> LRU_write this key val timeLimit w
          | USALRU \<Rightarrow> LRU_write this key val timeLimit w
          | _ \<Rightarrow> Threw TypeError w))"

text \<open>
  The loop of \<^verbatim>\<open>GlobalLRU.write\<close> over \<^verbatim>\<open>lruKeys = Object.keys(this.lrus)\<close>, from index
  \<open>i\<close> on: \<^verbatim>\<open>this.lrus[lruKeys[i]]\<close> is read again in each round. The argument \<^verbatim>\<open>lruKey\<close>
  is \<open>None\<close> when the caller passes none (\<^verbatim>\<open>undefined\<close> differs from every key).
\<close>

fun fan_out_write ::
  "oid \<Rightarrow> string list \<Rightarrow> string \<Rightarrow> 'v \<Rightarrow> int option \<Rightarrow> string option \<Rightarrow> 'v world \<Rightarrow> 'v outcome" where
  "fan_out_write this [] key val timeLimit lruKey w = Done Undefined w"
| "fan_out_write this (k # lruKeys) key val timeLimit lruKey w =
     andThen
       (if Some k \<noteq> lruKey then
          (case w_objs w this of
             None \<Rightarrow> Threw TypeError w
           | Some obj \<Rightarrow>
              (case map_of (lru_lrus obj) k of
                 None \<Rightarrow> Threw TypeError w
               | Some r \<Rightarrow> updateWrite r key val timeLimit w))
        else Done Undefined w)
       (fan_out_write this lruKeys key val timeLimit lruKey)"

definition GlobalLRU_write ::
  "oid \<Rightarrow> string \<Rightarrow> 'v \<Rightarrow> int option \<Rightarrow> string option \<Rightarrow> 'v world \<Rightarrow> 'v outcome" where
  "GlobalLRU_write this key val timeLimit lruKey w =
     andThen (LRU_write this key val timeLimit w)
       (\<lambda>w. case w_objs w this of
               None \<Rightarrow> Threw TypeError w
             | Some obj \<Rightarrow>
                 fan_out_write this (map fst (lru_lrus obj)) key val timeLimit lruKey w)"

text \<open>
  \<^verbatim>\<open>write(key, val, timeLimit)\<close> of \<^verbatim>\<open>CanadaLRU\<close> and of \<^verbatim>\<open>USALRU\<close> (the same text):
  \<^verbatim>\<open>super.write(key, val, timeLimit)\<close>, then
  \<^verbatim>\<open>this.globalLRU.write(key, val, timeLimit, this.lruKey)\<close>, which runs the \<^verbatim>\<open>write\<close> of the
  class of that object: a \<^verbatim>\<open>GlobalLRU\<close> takes all four arguments, an \<^verbatim>\<open>LRU\<close> the first
  three, and a region the first three in this same method. The nesting of these calls is
  counted by \<open>d\<close>: a chain of \<^verbatim>\<open>globalLRU\<close> references that comes back to a region makes them
  nest without end, which JavaScript ends with a RangeError when its stack is full; the
  model ends it when the calls are nested more deeply than there are objects.
\<close>

fun Region_write_nested ::
  "nat \<Rightarrow> oid \<Rightarrow> string \<Rightarrow> 'v \<Rightarrow> int option \<Rightarrow> 'v world \<Rightarrow> 'v outcome" where
  "Region_write_nested 0 this key val timeLimit w = Threw RangeError w"
| "Region_write_nested (Suc d) this key val timeLimit w =
     andThen (LRU_write this key val timeLimit w)
       (\<lambda>w. case w_objs w this of
               None \<Rightarrow> Threw TypeError w
             | Some obj \<Rightarrow>
                (case lru_globalLRU obj of
                   None \<Rightarrow> Threw TypeError w
                 | Some g \<Rightarrow>
                    (case w_objs w g of
                       None \<Rightarrow> Threw TypeError w
                     | Some gobj \<Rightarrow>
                        (case lru_class gobj of
                           LRU \<Rightarrow> LRU_write g key val timeLimit w
                         | GlobalLRU \<Rightarrow> GlobalLRU_write g key val timeLimit (lru_lruKey obj) w
                         | CanadaLRU \<Rightarrow> Region_write_nested d g key val timeLimit w
                         | USALRU \<Rightarrow> Region_write_nested d g key val timeLimit w))))"

definition Region_write :: "oid \<Rightarrow> string \<Rightarrow> 'v \<Rightarrow> int option \<Rightarrow> 'v world \<Rightarrow> 'v outcome" where
  "Region_write this key val timeLimit w =
     Region_write_nested (Suc (w_next_oid w)) this key val timeLimit w"

text \<open>
  \<^verbatim>\<open>this.write(key, val)\<close> as \<^verbatim>\<open>LRU.read\<close> calls it: the method of the object's own class
  runs, with \<^verbatim>\<open>timeLimit\<close> (and, for the hub, \<^verbatim>\<open>lruKey\<close>) not passed.
\<close>

definition this_write :: "oid \<Rightarrow> string \<Rightarrow> 'v \<Rightarrow> 'v world \<Rightarrow> 'v outcome" where
  "this_write this key val w =
     (case w_objs w this of
        None \<Rightarrow> Threw TypeError w
      | Some obj \<Rightarrow>
         (case lru_class obj of
            LRU \<Rightarrow> LRU_write this key val None w
          | GlobalLRU \<Rightarrow> GlobalLRU_write this key val None None w
          | CanadaLRU \<Rightarrow> Region_write this key val None w
          | USALRU \<Rightarrow> Region_write this key val None w))"

text \<open>
  \<^verbatim>\<open>read(key)\<close> of class \<^verbatim>\<open>LRU\<close>. It has no \<^verbatim>\<open>return\<close> statement. For a key that only
  \<^verbatim>\<open>Object.prototype\<close> provides, \<^verbatim>\<open>this.remove(key)\<close> throws before \<^verbatim>\<open>this.write\<close> is
  reached.
\<close>

definition LRU_read :: "oid \<Rightarrow> string \<Rightarrow> 'v world \<Rightarrow> 'v outcome" where
  "LRU_read this key w =
     (case w_objs w this of
        None \<Rightarrow> Threw TypeError w
      | Some obj \<Rightarrow>
         (case cache_lookup obj key of
            Missing \<Rightarrow> Done Undefined w
          | Inherited \<Rightarrow> LRU_remove this key w
          | OwnNode a \<Rightarrow>
             (case w_nodes w a of
                None \<Rightarrow> Threw TypeError w
              | Some node \<Rightarrow>
                 andThen (LRU_remove this key w) (this_write this key (n_val node)))))"

text \<open>\<^verbatim>\<open>class GlobalLRU\<close>: constructor, \<^verbatim>\<open>addLRU\<close>, \<^verbatim>\<open>removeLRU\<close>.\<close>

definition new_GlobalLRU :: "int option \<Rightarrow> int option \<Rightarrow> 'v world \<Rightarrow> 'v outcome" where
  "new_GlobalLRU limit timeLimit w =
     (let (this, w) = new_object (LRU_fields GlobalLRU limit timeLimit) w;
          w = upd_obj this (\<lambda>obj. obj\<lparr>lru_lrus := []\<rparr>) w
      in Done (ObjectRef this) w)"

text \<open>
  The own properties of a plain object are kept in the order in which \<^verbatim>\<open>Object.keys\<close> lists
  them: first the array indices (the decimal strings, without leading zeros, of the numbers
  below \<open>2^32 - 1\<close>) in ascending order, then the other keys in the order of their creation.
\<close>

definition decimal_digit :: "char \<Rightarrow> nat option" where
  "decimal_digit c =
     (let n = (of_char c :: nat) in if 48 \<le> n \<and> n \<le> 57 then Some (n - 48) else None)"

definition array_index :: "string \<Rightarrow> nat option" where
  "array_index s =
     (case those (map decimal_digit s) of
        None \<Rightarrow> None
      | Some ds \<Rightarrow>
          if ds = [] \<or> (hd ds = 0 \<and> ds \<noteq> [0]) then None
          else if foldl (\<lambda>n d. 10 * n + d) 0 ds < 4294967295
          then Some (foldl (\<lambda>n d. 10 * n + d) 0 ds)
          else None)"

definition before_index :: "nat \<Rightarrow> string \<times> 'a \<Rightarrow> bool" where
  "before_index i p = (case array_index (fst p) of None \<Rightarrow> False | Some j \<Rightarrow> j < i)"

text \<open>
  \<^verbatim>\<open>obj[k] = v\<close> on the own properties of a plain object: an existing property keeps its
  place; a new one goes after the smaller array indices if it is an array index, and last
  otherwise; assigning to \<^verbatim>\<open>__proto__\<close> creates no own property.
  \<^verbatim>\<open>delete obj[k]\<close> removes the own property if there is one.
\<close>

definition set_property :: "(string \<times> 'a) list \<Rightarrow> string \<Rightarrow> 'a \<Rightarrow> (string \<times> 'a) list" where
  "set_property ps k v =
     (if k \<in> set (map fst ps) then map (\<lambda>p. if fst p = k then (k, v) else p) ps
      else if k = ''__proto__'' then ps
      else (case array_index k of
              None \<Rightarrow> ps @ [(k, v)]
            | Some i \<Rightarrow> takeWhile (before_index i) ps @ (k, v) # dropWhile (before_index i) ps))"

definition delete_property :: "(string \<times> 'a) list \<Rightarrow> string \<Rightarrow> (string \<times> 'a) list" where
  "delete_property ps k = filter (\<lambda>p. fst p \<noteq> k) ps"

definition addLRU :: "oid \<Rightarrow> string \<Rightarrow> oid \<Rightarrow> 'v world \<Rightarrow> 'v outcome" where
  "addLRU this lruKey r w =
     (case w_objs w this of
        None \<Rightarrow> Threw TypeError w
      | Some obj \<Rightarrow>
          Done Undefined (upd_obj this (\<lambda>obj. obj\<lparr>lru_lrus := set_property (lru_lrus obj) lruKey r\<rparr>) w))"

definition removeLRU :: "oid \<Rightarrow> string \<Rightarrow> 'v world \<Rightarrow> 'v outcome" where
  "removeLRU this lruKey w =
     (case w_objs w this of
        None \<Rightarrow> Threw TypeError w
      | Some obj \<Rightarrow>
          Done Undefined (upd_obj this (\<lambda>obj. obj\<lparr>lru_lrus := delete_property (lru_lrus obj) lruKey\<rparr>) w))"

text \<open>
  \<^verbatim>\<open>Node.clone()\<close>. Its arguments are evaluated in order; \<^verbatim>\<open>prev\<close> and \<^verbatim>\<open>next\<close> in
  \<^verbatim>\<open>prev.clone()\<close> and \<^verbatim>\<open>next.clone()\<close> are free identifiers that nothing declares, so
  evaluating either throws a ReferenceError.
\<close>

definition Node_clone :: "addr \<Rightarrow> 'v world \<Rightarrow> 'v outcome" where
  "Node_clone a w =
     (case w_nodes w a of
        None \<Rightarrow> Threw TypeError w
      | Some n \<Rightarrow>
          if n_prev n \<noteq> None then Threw ReferenceError w
          else if n_next n \<noteq> None then Threw ReferenceError w
          else let (a', w) = new_Node \<lparr>n_key = n_key n, n_val = n_val n, n_prev = None,
                                        n_next = None, n_timeout = n_timeout n\<rparr> w
               in Done (NodeRef a') w)"

text \<open>
  The constructors of the regions. \<^verbatim>\<open>{...this.globalLRU.cache}\<close> copies the own properties
  of the hub's index, that is the references to the hub's nodes.
\<close>

definition new_USALRU :: "oid \<Rightarrow> int option \<Rightarrow> int option \<Rightarrow> 'v world \<Rightarrow> 'v outcome" where
  "new_USALRU globalLRU limit timeLimit w =
     (let (this, w) = new_object (LRU_fields USALRU limit timeLimit) w;
          w = upd_obj this (\<lambda>obj. obj\<lparr>lru_lruKey := Some ''usa''\<rparr>) w;
          w = upd_obj this (\<lambda>obj. obj\<lparr>lru_globalLRU := Some globalLRU\<rparr>) w
      in Done (ObjectRef this) w)"

definition new_CanadaLRU :: "oid \<Rightarrow> int option \<Rightarrow> int option \<Rightarrow> 'v world \<Rightarrow> 'v outcome" where
  "new_CanadaLRU globalLRU limit timeLimit w =
     (let (this, w) = new_object (LRU_fields CanadaLRU limit timeLimit) w;
          w = upd_obj this (\<lambda>obj. obj\<lparr>lru_lruKey := Some ''canada''\<rparr>) w;
          w = upd_obj this (\<lambda>obj. obj\<lparr>lru_globalLRU := Some globalLRU\<rparr>) w
      in case w_objs w globalLRU of
           None \<Rightarrow> Threw TypeError w
         | Some g \<Rightarrow>
            if lru_length g > 0 then
              (case lru_head g of
                 None \<Rightarrow> Threw TypeError w
               | Some h \<Rightarrow>
                  (case Node_clone h w of
                     Threw e w \<Rightarrow> Threw e w
                   | Done r w \<Rightarrow>
                      let w = upd_obj this (\<lambda>obj. obj\<lparr>lru_head := (case r of NodeRef a \<Rightarrow> Some a | _ \<Rightarrow> None)\<rparr>) w
                      in (case lru_tail g of
                            None \<Rightarrow> Threw TypeError w
                          | Some t \<Rightarrow>
                             (case Node_clone t w of
                                Threw e w \<Rightarrow> Threw e w
                              | Done r w \<Rightarrow>
                                 let w = upd_obj this (\<lambda>obj. obj\<lparr>lru_tail := (case r of NodeRef a \<Rightarrow> Some a | _ \<Rightarrow> None)\<rparr>) w;
                                     w = upd_obj this (\<lambda>obj. obj\<lparr>lru_length := lru_length g\<rparr>) w;
                                     w = upd_obj this (\<lambda>obj. obj\<lparr>lru_cache := lru_cache g\<rparr>) w
                                 in Done (ObjectRef this) w))))
            else Done (ObjectRef this) w)"

section \<open>The cache with expiry (q3.js): timers and runs\<close>

text \<open>
  A pending timer fires once its delay has passed: it leaves the table and its callback
  calls \<^verbatim>\<open>remove(key)\<close> on the cache that armed it (no class overrides \<^verbatim>\<open>remove\<close>).
  Firing a handle that is not pending, or not yet due, does nothing. Delays are taken as
  they are passed (JavaScript raises a delay below 1 ms to 1 ms).
\<close>

definition fire_timer :: "tid \<Rightarrow> 'v world \<Rightarrow> 'v outcome" where
  "fire_timer t w =
     (case w_timers w t of
        None \<Rightarrow> Done Undefined w
      | Some tm \<Rightarrow>
          if w_now w < t_armed tm + t_delay tm then Done Undefined w
          else LRU_remove (t_owner tm) (t_key tm) (w\<lparr>w_timers := (w_timers w)(t := None)\<rparr>))"

definition sleep :: "nat \<Rightarrow> 'v world \<Rightarrow> 'v world" where
  "sleep ms w = w\<lparr>w_now := w_now w + int ms\<rparr>"

text \<open>
  What a client of a cache of class \<^verbatim>\<open>LRU\<close> can make happen: calls of \<^verbatim>\<open>write\<close>, \<^verbatim>\<open>read\<close>
  and \<^verbatim>\<open>remove\<close>, time passing, and timers firing. A call that throws leaves the cache as
  it was when it threw, and the run goes on.
\<close>

datatype 'v op = Write string 'v "int option" | Read string | Remove string | Expire tid | Sleep nat

fun step :: "oid \<Rightarrow> 'v op \<Rightarrow> 'v world \<Rightarrow> 'v outcome" where
  "step this (Write key val timeLimit) w = LRU_write this key val timeLimit w"
| "step this (Read key) w = LRU_read this key w"
| "step this (Remove key) w = LRU_remove this key w"
| "step this (Expire t) w = fire_timer t w"
| "step this (Sleep ms) w = Done Undefined (sleep ms w)"

fun run :: "oid \<Rightarrow> 'v op list \<Rightarrow> 'v world \<Rightarrow> 'v world" where
  "run this [] w = w"
| "run this (x # xs) w = run this xs (world_of (step this x w))"

section \<open>Observations\<close>

text \<open>
  The recency list of a cache, read as \<^verbatim>\<open>printAll\<close> reads it: from \<^verbatim>\<open>this.head\<close> along
  \<^verbatim>\<open>next\<close> until \<^verbatim>\<open>null\<close>. The walk is given as many steps as nodes were ever allocated,
  and is \<open>None\<close> if it does not end by then (a list with a cycle).
\<close>

fun walk :: "nat \<Rightarrow> (addr \<rightharpoonup> 'v node) \<Rightarrow> addr option \<Rightarrow> addr list option" where
  "walk fuel h None = Some []"
| "walk 0 h (Some a) = None"
| "walk (Suc fuel) h (Some a) =
     (case h a of
        None \<Rightarrow> None
      | Some n \<Rightarrow> map_option ((#) a) (walk fuel h (n_next n)))"

definition recency_list :: "'v world \<Rightarrow> oid \<Rightarrow> addr list option" where
  "recency_list w this =
     (case w_objs w this of
        None \<Rightarrow> None
      | Some obj \<Rightarrow> walk (w_next_addr w) (w_nodes w) (lru_head obj))"

definition entry_at :: "'v world \<Rightarrow> addr \<Rightarrow> (string \<times> 'v) option" where
  "entry_at w a = map_option (\<lambda>n. (n_key n, n_val n)) (w_nodes w a)"

text \<open>The keys and values along the recency list, most recently used first.\<close>

definition entries :: "'v world \<Rightarrow> oid \<Rightarrow> (string \<times> 'v) list option" where
  "entries w this =
     (case recency_list w this of
        None \<Rightarrow> None
      | Some ns \<Rightarrow> those (map (entry_at w) ns))"

text \<open>The value the index holds for a key.\<close>

definition cached :: "'v world \<Rightarrow> oid \<Rightarrow> string \<Rightarrow> 'v option" where
  "cached w this key =
     (case w_objs w this of
        None \<Rightarrow> None
      | Some obj \<Rightarrow>
         (case lru_cache obj key of
            None \<Rightarrow> None
          | Some a \<Rightarrow> map_option n_val (w_nodes w a)))"

text \<open>
  When the entry of a key is due to expire: the time its pending timer was armed plus
  the delay; \<open>None\<close> if the key is not in the index or its timer is not pending.
\<close>

definition expiry_deadline :: "'v world \<Rightarrow> oid \<Rightarrow> string \<Rightarrow> int option" where
  "expiry_deadline w this key =
     (case w_objs w this of
        None \<Rightarrow> None
      | Some obj \<Rightarrow>
         (case lru_cache obj key of
            None \<Rightarrow> None
          | Some a \<Rightarrow>
             (case w_nodes w a of
                None \<Rightarrow> None
              | Some n \<Rightarrow>
                 (case n_timeout n of
                    None \<Rightarrow> None
                  | Some t \<Rightarrow> map_option (\<lambda>tm. t_armed tm + t_delay tm) (w_timers w t)))))"

text \<open>
  The handles of the pending timers whose callback is \<^verbatim>\<open>this.remove(key)\<close>: the expiries
  armed for the key and neither fired nor cleared. Handles are given out from 0 upwards.
\<close>

definition pending :: "'v world \<Rightarrow> oid \<Rightarrow> string \<Rightarrow> tid list" where
  "pending w this key =
     filter (\<lambda>t. case w_timers w t of
                   None \<Rightarrow> False
                 | Some tm \<Rightarrow> t_owner tm = this \<and> t_key tm = key)
            [0 ..< w_next_tid w]"

section \<open>Well-formed caches\<close>

text \<open>
  A doubly linked segment: the nodes at \<open>ns\<close>, in this order, each linked to its
  neighbours; the first has \<open>p\<close> as \<^verbatim>\<open>prev\<close> and the last has \<open>q\<close> as \<^verbatim>\<open>next\<close>.
\<close>

fun dll :: "(addr \<rightharpoonup> 'v node) \<Rightarrow> addr option \<Rightarrow> addr list \<Rightarrow> addr option \<Rightarrow> bool" where
  "dll h p [] q = True"
| "dll h p (a # as) q =
     (case h a of
        None \<Rightarrow> False
      | Some n \<Rightarrow> n_prev n = p
                \<and> n_next n = (case as of [] \<Rightarrow> q | b # _ \<Rightarrow> Some b)
                \<and> dll h (Some a) as q)"

definition first_of :: "'a list \<Rightarrow> 'a option" where
  "first_of xs = (case xs of [] \<Rightarrow> None | x # _ \<Rightarrow> Some x)"

definition last_of :: "'a list \<Rightarrow> 'a option" where
  "last_of xs = (if xs = [] then None else Some (last xs))"

definition key_at :: "(addr \<rightharpoonup> 'v node) \<Rightarrow> addr \<Rightarrow> string" where
  "key_at h a = (case h a of None \<Rightarrow> [] | Some n \<Rightarrow> n_key n)"

definition timer_at :: "(addr \<rightharpoonup> 'v node) \<Rightarrow> addr \<Rightarrow> tid option" where
  "timer_at h a = (case h a of None \<Rightarrow> None | Some n \<Rightarrow> n_timeout n)"

text \<open>The index that belongs to a list of nodes: each node under its key.\<close>

definition index_of :: "(addr \<rightharpoonup> 'v node) \<Rightarrow> addr list \<Rightarrow> (string \<rightharpoonup> addr)" where
  "index_of h ns = map_of (map (\<lambda>a. (key_at h a, a)) ns)"

text \<open>
  The cache \<open>this\<close> is well formed and \<open>ns\<close> is its recency list, head first: the nodes
  are distinct, allocated, and doubly linked from \<^verbatim>\<open>head\<close> to \<^verbatim>\<open>tail\<close>; \<^verbatim>\<open>length\<close> counts
  them; their keys are distinct, none is a property of \<^verbatim>\<open>Object.prototype\<close>, and the index
  maps exactly these keys, each to its node.
\<close>

definition lru_ok :: "'v world \<Rightarrow> oid \<Rightarrow> addr list \<Rightarrow> bool" where
  "lru_ok w this ns =
     (case w_objs w this of
        None \<Rightarrow> False
      | Some obj \<Rightarrow>
          dll (w_nodes w) None ns None
          \<and> distinct ns
          \<and> set ns \<subseteq> {..<w_next_addr w}
          \<and> lru_head obj = first_of ns
          \<and> lru_tail obj = last_of ns
          \<and> lru_length obj = int (length ns)
          \<and> distinct (map (key_at (w_nodes w)) ns)
          \<and> set (map (key_at (w_nodes w)) ns) \<inter> set Object_prototype_keys = {}
          \<and> lru_cache obj = index_of (w_nodes w) ns)"

text \<open>
  The timers of the cache \<open>this\<close> match its nodes: every node holds the handle of a
  pending timer that this cache armed for the node's key, no two nodes hold the same
  handle, and every pending timer this cache armed is held by one of its nodes.
\<close>

definition timers_ok :: "'v world \<Rightarrow> oid \<Rightarrow> addr list \<Rightarrow> bool" where
  "timers_ok w this ns =
     ((\<forall>a \<in> set ns. \<exists>t tm. timer_at (w_nodes w) a = Some t \<and> w_timers w t = Some tm
                          \<and> t_owner tm = this \<and> t_key tm = key_at (w_nodes w) a)
      \<and> distinct (map (timer_at (w_nodes w)) ns)
      \<and> (\<forall>t tm. w_timers w t = Some tm \<longrightarrow> t_owner tm = this
                  \<longrightarrow> Some t \<in> timer_at (w_nodes w) ` set ns))"

text \<open>
  The store is well formed: \<open>L\<close> gives the recency list of every cache; every cache is
  well formed; no node belongs to two caches; and nodes and objects are allocated below
  the counters.
\<close>

definition heap_ok :: "'v world \<Rightarrow> (oid \<Rightarrow> addr list) \<Rightarrow> bool" where
  "heap_ok w L =
     ((\<forall>this \<in> dom (w_objs w). lru_ok w this (L this))
      \<and> (\<forall>o1 o2. o1 \<noteq> o2 \<longrightarrow> set (L o1) \<inter> set (L o2) = {})
      \<and> (\<forall>this. set (L this) \<subseteq> {..<w_next_addr w})
      \<and> dom (w_objs w) \<subseteq> {..<w_next_oid w})"

text \<open>
  The store and its timers are well formed: in addition, the timers of every cache match
  its nodes, and timers are allocated below the counter by caches that exist.
\<close>

definition world_ok :: "'v world \<Rightarrow> (oid \<Rightarrow> addr list) \<Rightarrow> bool" where
  "world_ok w L =
     (heap_ok w L
      \<and> (\<forall>this \<in> dom (w_objs w). timers_ok w this (L this))
      \<and> dom (w_timers w) \<subseteq> {..<w_next_tid w}
      \<and> (\<forall>t tm. w_timers w t = Some tm \<longrightarrow> t_owner tm < w_next_oid w))"

text \<open>
  What holds of a cache of class \<^verbatim>\<open>LRU\<close> with limit \<open>N\<close> throughout its life: the store is
  well formed and the recency list of the cache has at most \<open>N\<close> nodes.
\<close>

definition cache_inv :: "'v world \<Rightarrow> oid \<Rightarrow> int \<Rightarrow> bool" where
  "cache_inv w this N =
     (\<exists>L obj. heap_ok w L \<and> w_objs w this = Some obj \<and> lru_class obj = LRU
              \<and> lru_limit obj = N \<and> int (length (L this)) \<le> N)"

text \<open>
  Every cache in the registry \<open>regs\<close> of a hub is a region (an object of class
  \<^verbatim>\<open>CanadaLRU\<close> or \<^verbatim>\<open>USALRU\<close>, the classes that have \<^verbatim>\<open>updateWrite\<close>) with a limit other
  than 0.
\<close>

definition regions_ready :: "'v world \<Rightarrow> (string \<times> oid) list \<Rightarrow> bool" where
  "regions_ready w regs =
     (\<forall>(rid, r) \<in> set regs.
        case w_objs w r of
          None \<Rightarrow> False
        | Some robj \<Rightarrow> (lru_class robj = CanadaLRU \<or> lru_class robj = USALRU)
                       \<and> lru_limit robj \<noteq> 0)"

text \<open>The same with the timers: the store and its timers are well formed.\<close>

definition world_inv :: "'v world \<Rightarrow> oid \<Rightarrow> int \<Rightarrow> bool" where
  "world_inv w this N =
     (\<exists>L obj. world_ok w L \<and> w_objs w this = Some obj \<and> lru_class obj = LRU
              \<and> lru_limit obj = N \<and> int (length (L this)) \<le> N)"

section \<open>Effects of the operations on the store\<close>

text \<open>
  What \<^verbatim>\<open>remove\<close> does to the node store when it unlinks the node \<open>n\<close>: the two
  assignments to \<^verbatim>\<open>node.prev.next\<close> and \<^verbatim>\<open>node.next.prev\<close>, each made only if that
  neighbour exists.
\<close>

definition unlink_nodes :: "'v node \<Rightarrow> (addr \<rightharpoonup> 'v node) \<Rightarrow> (addr \<rightharpoonup> 'v node)" where
  "unlink_nodes n h =
     (let h1 = (case n_prev n of
                  None \<Rightarrow> h
                | Some p \<Rightarrow> h(p := map_option (\<lambda>m. m\<lparr>n_next := n_next n\<rparr>) (h p)))
      in case n_next n of
           None \<Rightarrow> h1
         | Some q \<Rightarrow> h1(q := map_option (\<lambda>m. m\<lparr>n_prev := n_prev n\<rparr>) (h1 q)))"

text \<open>
  The three parts of \<^verbatim>\<open>write\<close>, named: removing the entry the key already has, evicting
  the tail when the cache is at its limit, and linking a new node in at the head.
\<close>

definition remove_existing :: "oid \<Rightarrow> string \<Rightarrow> 'v world \<Rightarrow> 'v outcome" where
  "remove_existing this key w =
     (case w_objs w this of
        None \<Rightarrow> Threw TypeError w
      | Some obj \<Rightarrow>
          if cache_lookup obj key \<noteq> Missing then LRU_remove this key w else Done Undefined w)"

definition evict_at_limit :: "oid \<Rightarrow> 'v world \<Rightarrow> 'v outcome" where
  "evict_at_limit this w =
     (case w_objs w this of
        None \<Rightarrow> Threw TypeError w
      | Some obj \<Rightarrow>
          if LRU_isAtLimit obj then
            (case lru_tail obj of
               None \<Rightarrow> Threw TypeError w
             | Some t \<Rightarrow>
                (case w_nodes w t of
                   None \<Rightarrow> Threw TypeError w
                 | Some tn \<Rightarrow> LRU_remove this (n_key tn) w))
          else Done Undefined w)"

definition insert_at_head :: "oid \<Rightarrow> string \<Rightarrow> 'v \<Rightarrow> int option \<Rightarrow> 'v world \<Rightarrow> 'v outcome" where
  "insert_at_head this key val timeLimit w =
     (case w_objs w this of
        None \<Rightarrow> Threw TypeError w
      | Some obj \<Rightarrow>
          let timeoutTime = (case timeLimit of
                               None \<Rightarrow> lru_timeLimit obj
                             | Some t \<Rightarrow> if t = 0 then lru_timeLimit obj else t);
              (timeout, w) = setTimeout this key timeoutTime w
          in if lru_length obj = 0 then
               let (a, w) = new_Node \<lparr>n_key = key, n_val = val, n_prev = None,
                                       n_next = None, n_timeout = Some timeout\<rparr> w;
                   w = upd_obj this (\<lambda>obj. obj\<lparr>lru_head := Some a\<rparr>) w;
                   w = upd_obj this (\<lambda>obj. obj\<lparr>lru_tail := Some a\<rparr>) w;
                   w = upd_obj this (\<lambda>obj. obj\<lparr>lru_cache := (lru_cache obj)(key := lru_head obj)\<rparr>) w;
                   w = upd_obj this (\<lambda>obj. obj\<lparr>lru_length := lru_length obj + 1\<rparr>) w
               in Done Undefined w
             else
               let (a, w) = new_Node \<lparr>n_key = key, n_val = val, n_prev = None,
                                       n_next = lru_head obj, n_timeout = Some timeout\<rparr> w
               in (case lru_head obj of
                     None \<Rightarrow> Threw TypeError w
                   | Some h \<Rightarrow>
                      let w = set_prev h (Some a) w;
                          w = upd_obj this (\<lambda>obj. obj\<lparr>lru_head := Some a\<rparr>) w;
                          w = upd_obj this (\<lambda>obj. obj\<lparr>lru_cache := (lru_cache obj)(key := lru_head obj)\<rparr>) w;
                          w = upd_obj this (\<lambda>obj. obj\<lparr>lru_length := lru_length obj + 1\<rparr>) w
                      in Done Undefined w))"

text \<open>The delay \<^verbatim>\<open>write\<close> passes to \<^verbatim>\<open>setTimeout\<close>: \<^verbatim>\<open>timeLimit || this.timeLimit\<close>.\<close>

definition timeoutTime :: "lru \<Rightarrow> int option \<Rightarrow> int" where
  "timeoutTime obj timeLimit =
     (case timeLimit of None \<Rightarrow> lru_timeLimit obj
      | Some t \<Rightarrow> if t = 0 then lru_timeLimit obj else t)"

text \<open>The timer table after \<^verbatim>\<open>clearTimeout\<close> on each of the handles in \<open>S\<close>.\<close>

definition cancel :: "tid option set \<Rightarrow> (tid \<rightharpoonup> timer) \<Rightarrow> (tid \<rightharpoonup> timer)" where
  "cancel S T = (\<lambda>t. if Some t \<in> S then None else T t)"

text \<open>
  The recency list after \<^verbatim>\<open>remove(key)\<close>, and after \<^verbatim>\<open>write\<close> of a key: the entry of the
  key is taken out, then the last node if the list is as long as the limit, and the new
  node \<open>a\<close> is put in front.
\<close>

definition without_key :: "(addr \<rightharpoonup> 'v node) \<Rightarrow> string \<Rightarrow> addr list \<Rightarrow> addr list" where
  "without_key h key ns = filter (\<lambda>a. key_at h a \<noteq> key) ns"

definition evicted :: "int \<Rightarrow> addr list \<Rightarrow> addr list" where
  "evicted limit ns = (if int (length ns) = limit then butlast ns else ns)"

definition written :: "(addr \<rightharpoonup> 'v node) \<Rightarrow> int \<Rightarrow> string \<Rightarrow> addr \<Rightarrow> addr list \<Rightarrow> addr list" where
  "written h limit key a ns = a # evicted limit (without_key h key ns)"

text \<open>What a node carries apart from its links: key, value and timer handle.\<close>

definition payload :: "(addr \<rightharpoonup> 'v node) \<Rightarrow> addr \<Rightarrow> (string \<times> 'v \<times> tid option) option" where
  "payload h a = map_option (\<lambda>n. (n_key n, n_val n, n_timeout n)) (h a)"

text \<open>The fields of a cache object that no method assigns after construction.\<close>

definition static_fields ::
  "lru \<Rightarrow> cls \<times> int \<times> int \<times> string option \<times> oid option" where
  "static_fields obj =
     (lru_class obj, lru_limit obj, lru_timeLimit obj, lru_lruKey obj, lru_globalLRU obj)"

text \<open>
  \<open>w'\<close> comes from \<open>w\<close> by operations on the cache \<open>this\<close> whose nodes are in \<open>A\<close>: other
  cache objects and other nodes are as they were, no node allocated in \<open>w\<close> has changed
  its key, value or timer handle, no object was created, the clock has not moved, and
  the fixed fields and the registry of \<open>this\<close> are unchanged.
\<close>

definition frame :: "'v world \<Rightarrow> 'v world \<Rightarrow> oid \<Rightarrow> addr set \<Rightarrow> bool" where
  "frame w w' this A =
     ((\<forall>other. other \<noteq> this \<longrightarrow> w_objs w' other = w_objs w other)
      \<and> (\<forall>b. b \<notin> A \<longrightarrow> b < w_next_addr w \<longrightarrow> w_nodes w' b = w_nodes w b)
      \<and> (\<forall>b. b < w_next_addr w \<longrightarrow> payload (w_nodes w') b = payload (w_nodes w) b)
      \<and> w_next_addr w \<le> w_next_addr w'
      \<and> w_next_tid w \<le> w_next_tid w'
      \<and> w_next_oid w' = w_next_oid w
      \<and> w_now w' = w_now w
      \<and> dom (w_objs w') = dom (w_objs w)
      \<and> map_option static_fields (w_objs w' this) = map_option static_fields (w_objs w this)
      \<and> map_option lru_lrus (w_objs w' this) = map_option lru_lrus (w_objs w this))"

text \<open>
  The pending timers that the cache \<open>this\<close> armed. And \<open>w'\<close> comes from \<open>w\<close> by operations
  that leave the cache \<open>x\<close> with the nodes \<open>ns\<close> alone: its object, its nodes and its
  timers are as they were, no handle given out in \<open>w\<close> that is not pending has become
  pending, and the clock has not moved.
\<close>

definition timers_of :: "'v world \<Rightarrow> oid \<Rightarrow> (tid \<rightharpoonup> timer)" where
  "timers_of w this =
     (\<lambda>t. case w_timers w t of
            None \<Rightarrow> None
          | Some tm \<Rightarrow> if t_owner tm = this then Some tm else None)"

definition kept :: "'v world \<Rightarrow> 'v world \<Rightarrow> oid \<Rightarrow> addr list \<Rightarrow> bool" where
  "kept w w' x ns =
     (w_objs w' x = w_objs w x
      \<and> (\<forall>b \<in> set ns. w_nodes w' b = w_nodes w b)
      \<and> timers_of w' x = timers_of w x
      \<and> (\<forall>t < w_next_tid w. w_timers w t = None \<longrightarrow> w_timers w' t = None)
      \<and> w_now w' = w_now w
      \<and> w_next_tid w \<le> w_next_tid w')"

text \<open>
  What \<^verbatim>\<open>this.write(key, val)\<close> in \<^verbatim>\<open>read\<close> needs beyond the cache itself, by the class of
  \<open>this\<close>: nothing for an \<^verbatim>\<open>LRU\<close>; for a hub, that the caches in its registry are regions
  with limits other than 0; for a region, that its \<^verbatim>\<open>globalLRU\<close> is such a hub, itself with
  a limit other than 0, in which the region is registered under no other id than its own
  \<^verbatim>\<open>lruKey\<close>.
\<close>

definition write_through_ready :: "'v world \<Rightarrow> oid \<Rightarrow> bool" where
  "write_through_ready w this =
     (case w_objs w this of
        None \<Rightarrow> False
      | Some obj \<Rightarrow>
         (case lru_class obj of
            LRU \<Rightarrow> True
          | GlobalLRU \<Rightarrow> regions_ready w (lru_lrus obj)
          | _ \<Rightarrow>
             (case lru_globalLRU obj of
                None \<Rightarrow> False
              | Some g \<Rightarrow>
                 (case w_objs w g of
                    None \<Rightarrow> False
                  | Some gobj \<Rightarrow>
                      lru_class gobj = GlobalLRU \<and> lru_limit gobj \<noteq> 0
                      \<and> regions_ready w (lru_lrus gobj)
                      \<and> (\<forall>(rid, r) \<in> set (lru_lrus gobj).
                            r = this \<longrightarrow> Some rid = lru_lruKey obj)))))"

section \<open>Concrete programs\<close>

text \<open>
  \<^verbatim>\<open>new LRU(2, 1000)\<close> in a fresh program; the cache is object \<open>0\<close>.
\<close>

definition capacity_two :: "int world" where
  "capacity_two = world_of (new_LRU (Some 2) (Some 1000) empty_world)"

text \<open>
  A hub (object \<open>0\<close>) with the region \<^verbatim>\<open>usa\<close> (object \<open>1\<close>) registered, as \<^verbatim>\<open>geoLRUDemo\<close>
  sets them up; the same with a \<^verbatim>\<open>CanadaLRU\<close> constructed as well (object \<open>2\<close>, not
  registered); and the hub with \<^verbatim>\<open>usa\<close> after the region has written one key, and after it
  has written two.
\<close>

definition hub_and_usa :: "int world" where
  "hub_and_usa =
     (let w = world_of (new_GlobalLRU None None empty_world);
          w = world_of (new_USALRU 0 None None w)
      in world_of (addLRU 0 ''usa'' 1 w))"

definition hub_usa_canada :: "int world" where
  "hub_usa_canada = world_of (new_CanadaLRU 0 None None hub_and_usa)"

text \<open>
  The store of \<^verbatim>\<open>geoLRUDemo\<close> before its first write: the hub (object \<open>0\<close>) with the regions
  \<^verbatim>\<open>canada\<close> (object \<open>1\<close>) and \<^verbatim>\<open>usa\<close> (object \<open>2\<close>) registered.
\<close>

definition geo_demo :: "int world" where
  "geo_demo =
     (let w = world_of (new_GlobalLRU None None empty_world);
          w = world_of (new_CanadaLRU 0 None None w);
          w = world_of (new_USALRU 0 None None w);
          w = world_of (addLRU 0 ''canada'' 1 w)
      in world_of (addLRU 0 ''usa'' 2 w))"

definition hub_with_one_entry :: "int world" where
  "hub_with_one_entry = world_of (Region_write 1 ''a'' 1 None hub_and_usa)"

definition hub_with_two_entries :: "int world" where
  "hub_with_two_entries = world_of (Region_write 1 ''b'' 2 None hub_with_one_entry)"

text \<open>A \<^verbatim>\<open>CanadaLRU\<close> (object \<open>2\<close>) constructed against the hub that holds one entry.\<close>

definition canada_joined_late :: "int world" where
  "canada_joined_late = world_of (new_CanadaLRU 0 None None hub_with_one_entry)"

text \<open>
  A \<^verbatim>\<open>CanadaLRU\<close> of capacity 2 (object \<open>2\<close>) constructed against the hub that holds one
  entry, and the store after this cache has written the key b and then the key c.
\<close>

definition canada_capacity_two :: "int world" where
  "canada_capacity_two = world_of (new_CanadaLRU 0 (Some 2) None hub_with_one_entry)"

definition canada_wrote_b :: "int world" where
  "canada_wrote_b = world_of (Region_write 2 ''b'' 2 None canada_capacity_two)"

definition canada_wrote_b_c :: "int world" where
  "canada_wrote_b_c = world_of (Region_write 2 ''c'' 3 None canada_wrote_b)"

text \<open>
  A region whose \<^verbatim>\<open>globalLRU\<close> is a plain cache: \<^verbatim>\<open>new USALRU(new LRU())\<close>; the plain cache is
  object \<open>0\<close>, the region object \<open>1\<close>.
\<close>

definition usa_of_plain_cache :: "int world" where
  "usa_of_plain_cache =
     (let w = world_of (new_LRU None None empty_world)
      in world_of (new_USALRU 0 None None w))"

text \<open>
  \<^verbatim>\<open>geoLRUDemo\<close> after \<^verbatim>\<open>usa\<close> has written the key a with a TTL of 5000 ms; and after it has
  then written the key b and 250 ms have passed.
\<close>

definition usa_wrote_a :: "int world" where
  "usa_wrote_a = world_of (Region_write 2 ''a'' 1 (Some 5000) geo_demo)"

definition usa_wrote_a_b :: "int world" where
  "usa_wrote_a_b = sleep 250 (world_of (Region_write 2 ''b'' 2 None usa_wrote_a))"

section \<open>Properties of the interval overlap test\<close>

lemma q1_ordered: "a \<le> b \<Longrightarrow> c \<le> d \<Longrightarrow> q1 a b c d = (c \<le> b \<and> a \<le> d)"
  unfolding q1_def by (auto simp: not_less [symmetric])

lemma q1_normalise: "q1 x1 x2 x3 x4 = q1 (min x1 x2) (max x1 x2) (min x3 x4) (max x3 x4)"
proof -
  have unf: "\<And>a b c d :: 'a. q1 a b c d =
     (let p = (if b < a then (b, a) else (a, b)); r = (if d < c then (d, c) else (c, d))
      in fst p = fst r \<or> fst p = snd r \<or> snd p = fst r \<or> snd p = snd r
         \<or> (fst r > fst p \<and> snd p > fst r) \<or> (fst p > fst r \<and> snd r > fst p))"
    unfolding q1_def Let_def by (simp add: split_def)
  have p: "\<And>a b :: 'a. (if b < a then (b, a) else (a, b)) = (min a b, max a b)"
    by (auto simp: min_def max_def)
  have q: "\<And>a b :: 'a. \<not> max a b < min a b"
    by (simp add: not_less min_le_iff_disj le_max_iff_disj)
  show ?thesis
    unfolding unf [of x1 x2 x3 x4] unf [of "min x1 x2" "max x1 x2" "min x3 x4" "max x3 x4"]
    by (simp only: p q if_False Let_def)
qed

lemma q1_min_max: "q1 x1 x2 x3 x4 = (max (min x1 x2) (min x3 x4) \<le> min (max x1 x2) (max x3 x4))"
proof -
  have "q1 (min x1 x2) (max x1 x2) (min x3 x4) (max x3 x4)
        = (min x3 x4 \<le> max x1 x2 \<and> min x1 x2 \<le> max x3 x4)"
    by (rule q1_ordered) (simp_all add: min_le_iff_disj le_max_iff_disj)
  then have "q1 x1 x2 x3 x4 = (min x3 x4 \<le> max x1 x2 \<and> min x1 x2 \<le> max x3 x4)"
    using q1_normalise [of x1 x2 x3 x4] by simp
  also have "\<dots> = (max (min x1 x2) (min x3 x4) \<le> min (max x1 x2) (max x3 x4))"
    by (simp add: min_le_iff_disj le_max_iff_disj conj_commute)
  finally show ?thesis .
qed

text \<open>
  C10. For all x1, x2, x3, x4 the function q1 returns true exactly when the closed
  intervals [min x1 x2, max x1 x2] and [min x3 x4, max x3 x4] intersect, that is when
  max (min x1 x2) (min x3 x4) is at most min (max x1 x2) (max x3 x4). The result does
  not change when the endpoints of either line are given in reversed order, and two
  intervals that touch in a single endpoint overlap.
\<close>

theorem q1_overlap_iff:
  "q1 x1 x2 x3 x4 = (max (min x1 x2) (min x3 x4) \<le> min (max x1 x2) (max x3 x4))
   \<and> q1 x2 x1 x3 x4 = q1 x1 x2 x3 x4
   \<and> q1 x1 x2 x4 x3 = q1 x1 x2 x3 x4
   \<and> q1 x1 x2 x2 x4 \<and> q1 x2 x1 x4 x2"
proof -
  have swap1: "q1 x2 x1 x3 x4 = q1 x1 x2 x3 x4"
    by (simp only: q1_min_max min.commute [of x2 x1] max.commute [of x2 x1])
  have swap2: "q1 x1 x2 x4 x3 = q1 x1 x2 x3 x4"
    by (simp only: q1_min_max min.commute [of x4 x3] max.commute [of x4 x3])
  have touch1: "q1 x1 x2 x2 x4"
    unfolding q1_min_max by (simp add: min_le_iff_disj le_max_iff_disj)
  have touch2: "q1 x2 x1 x4 x2"
    unfolding q1_min_max by (simp add: min_le_iff_disj le_max_iff_disj)
  show ?thesis using q1_min_max [of x1 x2 x3 x4] swap1 swap2 touch1 touch2 by blast
qed

section \<open>Evaluating the cache on concrete programs\<close>

lemmas lru_defs = new_LRU_def new_object_def LRU_fields_def empty_world_def LRU_write_def
  LRU_remove_def cache_lookup_def Object_prototype_keys_def LRU_isAtLimit_def setTimeout_def
  clearTimeout_def new_Node_def set_next_def set_prev_def upd_obj_def LRU_read_def
  this_write_def fire_timer_def sleep_def

lemmas registry_defs = set_property_def array_index_def decimal_digit_def before_index_def
  Let_def

lemmas hub_defs = updateWrite_def GlobalLRU_write_def Region_write_def new_GlobalLRU_def
  addLRU_def removeLRU_def new_USALRU_def new_CanadaLRU_def Node_clone_def delete_property_def
  registry_defs

lemmas obs_defs = entries_def recency_list_def entry_at_def cached_def expiry_deadline_def

lemma capacity_two_after_two_writes:
  "run 0 [Write ''k1'' 1 None, Write ''k2'' 2 None] capacity_two =
   \<lparr>w_nodes = [Suc 0 \<mapsto> \<lparr>n_key = ''k2'', n_val = 2, n_prev = None, n_next = Some 0,
                            n_timeout = Some (Suc 0)\<rparr>,
                0 \<mapsto> \<lparr>n_key = ''k1'', n_val = 1, n_prev = Some (Suc 0), n_next = None,
                        n_timeout = Some 0\<rparr>],
     w_next_addr = Suc (Suc 0),
     w_objs = [0 \<mapsto> \<lparr>lru_class = LRU, lru_length = 2, lru_limit = 2, lru_timeLimit = 1000,
                       lru_head = Some (Suc 0), lru_tail = Some 0,
                       lru_cache = [''k1'' \<mapsto> 0, ''k2'' \<mapsto> Suc 0],
                       lru_lruKey = None, lru_globalLRU = None, lru_lrus = []\<rparr>],
     w_next_oid = Suc 0,
     w_timers = [0 \<mapsto> \<lparr>t_owner = 0, t_key = ''k1'', t_armed = 0, t_delay = 1000\<rparr>,
                 Suc 0 \<mapsto> \<lparr>t_owner = 0, t_key = ''k2'', t_armed = 0, t_delay = 1000\<rparr>],
     w_next_tid = Suc (Suc 0), w_now = 0\<rparr>"
  by (simp add: capacity_two_def lru_defs)

lemma capacity_two_read:
  "LRU_read 0 ''k1'' (run 0 [Write ''k1'' 1 None, Write ''k2'' 2 None] capacity_two) =
   Done Undefined
   \<lparr>w_nodes = [0 \<mapsto> \<lparr>n_key = ''k1'', n_val = 1, n_prev = Some (Suc 0), n_next = None,
                        n_timeout = Some 0\<rparr>,
                Suc (Suc 0) \<mapsto> \<lparr>n_key = ''k1'', n_val = 1, n_prev = None,
                                  n_next = Some (Suc 0), n_timeout = Some (Suc (Suc 0))\<rparr>,
                Suc 0 \<mapsto> \<lparr>n_key = ''k2'', n_val = 2, n_prev = Some (Suc (Suc 0)),
                            n_next = None, n_timeout = Some (Suc 0)\<rparr>],
     w_next_addr = Suc (Suc (Suc 0)),
     w_objs = [0 \<mapsto> \<lparr>lru_class = LRU, lru_length = 2, lru_limit = 2, lru_timeLimit = 1000,
                       lru_head = Some (Suc (Suc 0)), lru_tail = Some (Suc 0),
                       lru_cache = [''k2'' \<mapsto> Suc 0, ''k1'' \<mapsto> Suc (Suc 0)],
                       lru_lruKey = None, lru_globalLRU = None, lru_lrus = []\<rparr>],
     w_next_oid = Suc 0,
     w_timers = [Suc 0 \<mapsto> \<lparr>t_owner = 0, t_key = ''k2'', t_armed = 0, t_delay = 1000\<rparr>,
                 Suc (Suc 0) \<mapsto> \<lparr>t_owner = 0, t_key = ''k1'', t_armed = 0, t_delay = 1000\<rparr>],
     w_next_tid = Suc (Suc (Suc 0)), w_now = 0\<rparr>"
  unfolding capacity_two_after_two_writes by (simp add: lru_defs)

lemma run_snoc: "run this (xs @ [x]) w = world_of (step this x (run this xs w))"
  by (induction xs arbitrary: w) simp_all

text \<open>
  C2, as the code has it. On a cache of capacity 2 with default TTL 1000 ms, after
  \<^verbatim>\<open>write("k1", 1)\<close> and \<^verbatim>\<open>write("k2", 2)\<close> the call \<^verbatim>\<open>read("k1")\<close> returns no value
  (\<^verbatim>\<open>undefined\<close>) and makes k1 the most recently used entry; \<^verbatim>\<open>write("k3", 3)\<close> then evicts
  exactly k2 and leaves the cache with exactly the entries k1 -> 1 and k3 -> 3.
\<close>

theorem capacity_two_scenario:
  "value_of (LRU_read 0 ''k1'' (run 0 [Write ''k1'' 1 None, Write ''k2'' 2 None] capacity_two))
     = Some Undefined
   \<and> entries (run 0 [Write ''k1'' 1 None, Write ''k2'' 2 None] capacity_two) 0
     = Some [(''k2'', 2), (''k1'', 1)]
   \<and> entries (run 0 [Write ''k1'' 1 None, Write ''k2'' 2 None, Read ''k1''] capacity_two) 0
     = Some [(''k1'', 1), (''k2'', 2)]
   \<and> entries (run 0 [Write ''k1'' 1 None, Write ''k2'' 2 None, Read ''k1'',
                      Write ''k3'' 3 None] capacity_two) 0
     = Some [(''k3'', 3), (''k1'', 1)]
   \<and> map_option (dom \<circ> lru_cache)
        (w_objs (run 0 [Write ''k1'' 1 None, Write ''k2'' 2 None, Read ''k1'',
                        Write ''k3'' 3 None] capacity_two) 0)
     = Some {''k1'', ''k3''}
   \<and> map (cached (run 0 [Write ''k1'' 1 None, Write ''k2'' 2 None, Read ''k1'',
                         Write ''k3'' 3 None] capacity_two) 0) [''k1'', ''k2'', ''k3'']
     = [Some 1, None, Some 3]"
proof -
  let ?two = "[Write ''k1'' 1 None, Write ''k2'' 2 None] :: int op list"
  have r: "value_of (LRU_read 0 ''k1'' (run 0 ?two capacity_two)) = Some Undefined"
    unfolding capacity_two_read by simp
  have e2: "entries (run 0 ?two capacity_two) 0 = Some [(''k2'', 2), (''k1'', 1)]"
    unfolding capacity_two_after_two_writes by (simp add: obs_defs)
  have e3: "entries (run 0 (?two @ [Read ''k1'']) capacity_two) 0
            = Some [(''k1'', 1), (''k2'', 2)]"
    unfolding run_snoc step.simps capacity_two_read by (simp add: obs_defs)
  have w4: "run 0 ((?two @ [Read ''k1'']) @ [Write ''k3'' 3 None]) capacity_two =
     \<lparr>w_nodes = [0 \<mapsto> \<lparr>n_key = ''k1'', n_val = 1, n_prev = Some (Suc 0), n_next = None,
                          n_timeout = Some 0\<rparr>,
                  Suc 0 \<mapsto> \<lparr>n_key = ''k2'', n_val = 2, n_prev = Some (Suc (Suc 0)),
                              n_next = None, n_timeout = Some (Suc 0)\<rparr>,
                  Suc (Suc (Suc 0)) \<mapsto> \<lparr>n_key = ''k3'', n_val = 3, n_prev = None,
                                          n_next = Some (Suc (Suc 0)),
                                          n_timeout = Some (Suc (Suc (Suc 0)))\<rparr>,
                  Suc (Suc 0) \<mapsto> \<lparr>n_key = ''k1'', n_val = 1,
                                    n_prev = Some (Suc (Suc (Suc 0))), n_next = None,
                                    n_timeout = Some (Suc (Suc 0))\<rparr>],
       w_next_addr = Suc (Suc (Suc (Suc 0))),
       w_objs = [0 \<mapsto> \<lparr>lru_class = LRU, lru_length = 2, lru_limit = 2, lru_timeLimit = 1000,
                         lru_head = Some (Suc (Suc (Suc 0))), lru_tail = Some (Suc (Suc 0)),
                         lru_cache = [''k1'' \<mapsto> Suc (Suc 0), ''k3'' \<mapsto> Suc (Suc (Suc 0))],
                         lru_lruKey = None, lru_globalLRU = None, lru_lrus = []\<rparr>],
       w_next_oid = Suc 0,
       w_timers = [Suc (Suc 0) \<mapsto> \<lparr>t_owner = 0, t_key = ''k1'', t_armed = 0, t_delay = 1000\<rparr>,
                   Suc (Suc (Suc 0)) \<mapsto> \<lparr>t_owner = 0, t_key = ''k3'', t_armed = 0,
                                           t_delay = 1000\<rparr>],
       w_next_tid = Suc (Suc (Suc (Suc 0))), w_now = 0\<rparr>"
    unfolding run_snoc [of 0 "?two @ [Read ''k1'']"] run_snoc [of 0 ?two] step.simps
      capacity_two_read
    by (simp add: lru_defs)
  have e4: "entries (run 0 ((?two @ [Read ''k1'']) @ [Write ''k3'' 3 None]) capacity_two) 0
            = Some [(''k3'', 3), (''k1'', 1)]"
    unfolding w4 by (simp add: obs_defs)
  have d4: "map_option (dom \<circ> lru_cache)
              (w_objs (run 0 ((?two @ [Read ''k1'']) @ [Write ''k3'' 3 None]) capacity_two) 0)
            = Some {''k1'', ''k3''}"
    unfolding w4 by (simp add: insert_commute)
  have c4: "map (cached (run 0 ((?two @ [Read ''k1'']) @ [Write ''k3'' 3 None]) capacity_two) 0)
              [''k1'', ''k2'', ''k3''] = [Some 1, None, Some 3]"
    unfolding w4 by (simp add: obs_defs)
  note facts = r e2 e3 e4 d4 c4
  show ?thesis
    by (intro conjI) (rule facts [unfolded append_Cons append_Nil])+
qed

text \<open>
  C2, as the specification states it, fails in one point: the \<^verbatim>\<open>read\<close> in the scenario does
  not return the pair (1, true); it returns \<^verbatim>\<open>undefined\<close>.
\<close>

theorem capacity_two_read_returns_undefined:
  "LRU_read 0 ''k1'' (run 0 [Write ''k1'' 1 None, Write ''k2'' 2 None] capacity_two)
   = Done Undefined
       (run 0 [Write ''k1'' 1 None, Write ''k2'' 2 None, Read ''k1''] capacity_two)"
proof -
  have "run 0 ([Write ''k1'' 1 None, Write ''k2'' 2 None] @ [Read ''k1'']) capacity_two
        = world_of (LRU_read 0 ''k1'' (run 0 [Write ''k1'' 1 None, Write ''k2'' 2 None] capacity_two))"
    unfolding run_snoc by simp
  then show ?thesis
    unfolding capacity_two_read by simp
qed

text \<open>
  The order of a registry: array indices first, in ascending order, whenever they were
  added; a key such as \<^verbatim>\<open>01\<close> is no array index. And the \<^verbatim>\<open>write\<close> of a region whose
  \<^verbatim>\<open>globalLRU\<close> is a plain cache: it completes and writes the key into both.
\<close>

lemma registry_order_example:
  "set_property (set_property (set_property (set_property [] ''usa'' (1 :: nat)) ''10'' 2) ''9'' 3)
     ''01'' 4
   = [(''9'', 3), (''10'', 2), (''usa'', 1), (''01'', 4)]"
  by (simp add: registry_defs)

lemma array_index_examples:
  "array_index ''4294967294'' = Some 4294967294 \<and> array_index ''4294967295'' = None
   \<and> array_index ''0'' = Some 0 \<and> array_index [] = None \<and> array_index ''00'' = None
   \<and> array_index ''usa'' = None"
  by (simp add: registry_defs)

lemma region_of_plain_cache_writes:
  "value_of (Region_write 1 ''a'' 1 None usa_of_plain_cache) = Some Undefined
   \<and> cached (world_of (Region_write 1 ''a'' 1 None usa_of_plain_cache)) 0 ''a'' = Some 1
   \<and> cached (world_of (Region_write 1 ''a'' 1 None usa_of_plain_cache)) 1 ''a'' = Some 1"
  by (simp add: usa_of_plain_cache_def lru_defs hub_defs obs_defs)

section \<open>Construction and registration\<close>

text \<open>
  C8, as the code has it. Constructing a cache never fails: the constructors of \<^verbatim>\<open>LRU\<close>
  and of the region \<^verbatim>\<open>USALRU\<close> accept every capacity and every default TTL, positive or
  not, complete normally and store both as given (10 and 60000 when omitted).
\<close>

theorem construction_accepts_any_configuration:
  "(\<exists>w'. new_LRU limit timeLimit w = Done (ObjectRef (w_next_oid w)) w'
         \<and> map_option lru_limit (w_objs w' (w_next_oid w))
             = Some (case limit of None \<Rightarrow> 10 | Some l \<Rightarrow> l)
         \<and> map_option lru_timeLimit (w_objs w' (w_next_oid w))
             = Some (case timeLimit of None \<Rightarrow> 60000 | Some t \<Rightarrow> t))
   \<and> (\<exists>w'. new_USALRU g limit timeLimit w = Done (ObjectRef (w_next_oid w)) w'
         \<and> map_option lru_limit (w_objs w' (w_next_oid w))
             = Some (case limit of None \<Rightarrow> 10 | Some l \<Rightarrow> l)
         \<and> map_option lru_timeLimit (w_objs w' (w_next_oid w))
             = Some (case timeLimit of None \<Rightarrow> 60000 | Some t \<Rightarrow> t))"
  by (simp add: new_LRU_def new_USALRU_def new_object_def LRU_fields_def upd_obj_def)

text \<open>
  C8, as the specification states it, fails: \<^verbatim>\<open>new LRU(0, -5)\<close> raises no error and yields
  a cache with capacity 0 and default TTL -5.
\<close>

theorem construction_with_capacity_zero_succeeds:
  "value_of (new_LRU (Some 0) (Some (- 5)) (empty_world :: int world)) = Some (ObjectRef 0)
   \<and> map_option lru_limit
        (w_objs (world_of (new_LRU (Some 0) (Some (- 5)) (empty_world :: int world))) 0) = Some 0
   \<and> map_option lru_timeLimit
        (w_objs (world_of (new_LRU (Some 0) (Some (- 5)) (empty_world :: int world))) 0) = Some (- 5)"
  by (simp add: lru_defs)

lemma hub_and_usa_hub:
  "w_objs hub_and_usa 0 =
     Some \<lparr>lru_class = GlobalLRU, lru_length = 0, lru_limit = 10, lru_timeLimit = 60000,
           lru_head = None, lru_tail = None, lru_cache = Map.empty, lru_lruKey = None,
           lru_globalLRU = None, lru_lrus = [(''usa'', 1)]\<rparr>"
  by (simp add: hub_and_usa_def lru_defs hub_defs)

lemma set_property_present:
  "map_of ps k \<noteq> None
   \<Longrightarrow> set_property ps k v = map (\<lambda>p. if fst p = k then (k, v) else p) ps"
  by (simp add: set_property_def map_of_eq_None_iff)

lemma set_property_keys:
  "map_of ps k \<noteq> None \<Longrightarrow> map fst (set_property ps k v) = map fst ps"
  unfolding set_property_present by (induction ps) auto

lemma set_property_same:
  "map_of ps k \<noteq> None \<Longrightarrow> map_of (set_property ps k v) k = Some v"
  unfolding set_property_present by (induction ps) (auto split: if_splits)

lemma map_of_insert_other:
  "k' \<noteq> k \<Longrightarrow> map_of (xs @ (k, v) # ys) k' = map_of (xs @ ys) k'"
  by (induction xs) auto

lemma set_property_other:
  assumes "k' \<noteq> k"
  shows "map_of (set_property ps k v) k' = map_of ps k'"
proof -
  have "map_of (map (\<lambda>p. if fst p = k then (k, v) else p) ps) k' = map_of ps k'"
    using assms by (induction ps) auto
  moreover have "map_of (ps @ [(k, v)]) k' = map_of ps k'"
    using map_of_insert_other [OF assms, of ps v "[]"] by simp
  moreover have "map_of (takeWhile P ps @ (k, v) # dropWhile P ps) k' = map_of ps k'" for P
    using map_of_insert_other [OF assms, of "takeWhile P ps" v "dropWhile P ps"] by simp
  ultimately show ?thesis
    by (simp add: set_property_def split: option.splits)
qed

lemma delete_property_unknown:
  "map_of ps k = None \<Longrightarrow> delete_property ps k = ps"
  unfolding delete_property_def by (induction ps) (auto split: if_splits)

text \<open>
  C9, as the code has it. \<^verbatim>\<open>addLRU\<close> with a region id that is already registered does not
  fail: it completes normally, the id keeps its place in the registry and now refers to
  the cache just passed, and every other id refers to what it referred to before.
  \<^verbatim>\<open>removeLRU\<close> of an id that is not registered completes normally and changes nothing.
\<close>

theorem addLRU_replaces_removeLRU_skips:
  assumes "w_objs w this = Some obj"
  shows "(map_of (lru_lrus obj) lruKey \<noteq> None \<longrightarrow>
            (\<exists>reg. addLRU this lruKey r w
                      = Done Undefined (w\<lparr>w_objs := (w_objs w)(this \<mapsto> obj\<lparr>lru_lrus := reg\<rparr>)\<rparr>)
                  \<and> map fst reg = map fst (lru_lrus obj)
                  \<and> map_of reg lruKey = Some r
                  \<and> (\<forall>k. k \<noteq> lruKey \<longrightarrow> map_of reg k = map_of (lru_lrus obj) k)))
       \<and> (map_of (lru_lrus obj) lruKey' = None \<longrightarrow>
            removeLRU this lruKey' w = Done Undefined w)"
proof (intro conjI impI)
  assume reg: "map_of (lru_lrus obj) lruKey \<noteq> None"
  show "\<exists>reg. addLRU this lruKey r w
                = Done Undefined (w\<lparr>w_objs := (w_objs w)(this \<mapsto> obj\<lparr>lru_lrus := reg\<rparr>)\<rparr>)
            \<and> map fst reg = map fst (lru_lrus obj)
            \<and> map_of reg lruKey = Some r
            \<and> (\<forall>k. k \<noteq> lruKey \<longrightarrow> map_of reg k = map_of (lru_lrus obj) k)"
    using assms reg
    by (intro exI [of _ "set_property (lru_lrus obj) lruKey r"])
       (simp add: addLRU_def upd_obj_def set_property_keys set_property_same set_property_other)
next
  assume "map_of (lru_lrus obj) lruKey' = None"
  then have "delete_property (lru_lrus obj) lruKey' = lru_lrus obj"
    by (rule delete_property_unknown)
  moreover have "(w_objs w)(this \<mapsto> obj) = w_objs w"
    using assms by (simp add: fun_upd_idem)
  ultimately show "removeLRU this lruKey' w = Done Undefined w"
    using assms by (simp add: removeLRU_def upd_obj_def)
qed

text \<open>
  The hub of \<^verbatim>\<open>geoLRUDemo\<close> with \<^verbatim>\<open>usa\<close> registered: registering \<^verbatim>\<open>usa\<close> again replaces the
  cache, unregistering \<^verbatim>\<open>canada\<close> changes nothing.
\<close>

theorem addLRU_replaces_removeLRU_skips_witness:
  "map_option lru_lrus (w_objs hub_and_usa 0) = Some [(''usa'', 1)]
   \<and> map_option lru_lrus (w_objs (world_of (addLRU 0 ''usa'' 7 hub_and_usa)) 0) = Some [(''usa'', 7)]
   \<and> removeLRU 0 ''canada'' hub_and_usa = Done Undefined hub_and_usa"
proof -
  note t = addLRU_replaces_removeLRU_skips [OF hub_and_usa_hub, of "''usa''" 7 "''canada''"]
  have rm: "removeLRU 0 ''canada'' hub_and_usa = Done Undefined hub_and_usa"
    using t by simp
  have "map_option lru_lrus (w_objs (world_of (addLRU 0 ''usa'' 7 hub_and_usa)) 0) = Some [(''usa'', 7)]"
    using hub_and_usa_hub by (simp add: addLRU_def upd_obj_def registry_defs)
  with rm hub_and_usa_hub show ?thesis by simp
qed

text \<open>
  C9, as the specification states it, fails in its first half: with \<^verbatim>\<open>usa\<close> registered
  (object 1), \<^verbatim>\<open>addLRU("usa", canadaLRU)\<close> raises no conflict error and the registry changes:
  \<^verbatim>\<open>usa\<close> now refers to object 2.
\<close>

theorem addLRU_duplicate_id_overwrites:
  "map_option lru_lrus (w_objs hub_usa_canada 0) = Some [(''usa'', 1)]
   \<and> map_option lru_class (w_objs hub_usa_canada 2) = Some CanadaLRU
   \<and> value_of (addLRU 0 ''usa'' 2 hub_usa_canada) = Some Undefined
   \<and> map_option lru_lrus (w_objs (world_of (addLRU 0 ''usa'' 2 hub_usa_canada)) 0)
       = Some [(''usa'', 2)]"
  by (simp add: hub_usa_canada_def hub_and_usa_def lru_defs hub_defs)

section \<open>Joining a hub that already holds entries\<close>

lemma canada_joined_late_world:
  "new_CanadaLRU 0 None None hub_with_one_entry = Done (ObjectRef 2) canada_joined_late"
  by (simp add: canada_joined_late_def hub_with_one_entry_def hub_and_usa_def lru_defs hub_defs)

text \<open>
  C6. The claim is what the constructor of \<^verbatim>\<open>CanadaLRU\<close> sets out to do ("you need to copy
  the content into this LRU", "recursively clone"), and the constructor does not do it.
  Against a hub with the two entries b, a it throws a ReferenceError (\<^verbatim>\<open>next\<close> in
  \<^verbatim>\<open>next.clone()\<close> is not defined), so no cache is produced. Against a hub with the single
  entry a it completes, but the index of the new cache (object 2) refers to the hub's own
  node (address 1) and not to the clones it made for head and tail (addresses 2 and 3);
  \<^verbatim>\<open>remove("a")\<close> on the new cache then cancels the hub's timer for a, so the hub still
  holds a but the entry no longer expires.
\<close>

theorem CanadaLRU_bootstrap_defect:
  "entries hub_with_two_entries 0 = Some [(''b'', 2), (''a'', 1)]
   \<and> (\<exists>w'. new_CanadaLRU 0 None None hub_with_two_entries = Threw ReferenceError w')
   \<and> entries hub_with_one_entry 0 = Some [(''a'', 1)]
   \<and> value_of (new_CanadaLRU 0 None None hub_with_one_entry) = Some (ObjectRef 2)
   \<and> map_option (\<lambda>obj. lru_cache obj ''a'') (w_objs canada_joined_late 0) = Some (Some 1)
   \<and> map_option (\<lambda>obj. lru_cache obj ''a'') (w_objs canada_joined_late 2) = Some (Some 1)
   \<and> map_option lru_head (w_objs canada_joined_late 2) = Some (Some 2)
   \<and> map_option lru_tail (w_objs canada_joined_late 2) = Some (Some 3)
   \<and> expiry_deadline canada_joined_late 0 ''a'' = Some 60000
   \<and> value_of (LRU_remove 2 ''a'' canada_joined_late) = Some Undefined
   \<and> cached (world_of (LRU_remove 2 ''a'' canada_joined_late)) 0 ''a'' = Some 1
   \<and> expiry_deadline (world_of (LRU_remove 2 ''a'' canada_joined_late)) 0 ''a'' = None"
proof -
  have two: "entries hub_with_two_entries 0 = Some [(''b'', 2), (''a'', 1)]
      \<and> (\<exists>w'. new_CanadaLRU 0 None None hub_with_two_entries = Threw ReferenceError w')"
    by (simp add: hub_with_two_entries_def hub_with_one_entry_def hub_and_usa_def
        lru_defs hub_defs obs_defs)
  have one: "entries hub_with_one_entry 0 = Some [(''a'', 1)]"
    by (simp add: hub_with_one_entry_def hub_and_usa_def lru_defs hub_defs obs_defs)
  have joined: "value_of (new_CanadaLRU 0 None None hub_with_one_entry) = Some (ObjectRef 2)"
    unfolding canada_joined_late_world by simp
  have shared: "map_option (\<lambda>obj. lru_cache obj ''a'') (w_objs canada_joined_late 0) = Some (Some 1)
      \<and> map_option (\<lambda>obj. lru_cache obj ''a'') (w_objs canada_joined_late 2) = Some (Some 1)
      \<and> map_option lru_head (w_objs canada_joined_late 2) = Some (Some 2)
      \<and> map_option lru_tail (w_objs canada_joined_late 2) = Some (Some 3)
      \<and> expiry_deadline canada_joined_late 0 ''a'' = Some 60000"
    by (simp add: canada_joined_late_def hub_with_one_entry_def hub_and_usa_def
        lru_defs hub_defs obs_defs)
  have removed: "value_of (LRU_remove 2 ''a'' canada_joined_late) = Some Undefined
      \<and> cached (world_of (LRU_remove 2 ''a'' canada_joined_late)) 0 ''a'' = Some 1
      \<and> expiry_deadline (world_of (LRU_remove 2 ''a'' canada_joined_late)) 0 ''a'' = None"
    by (simp add: canada_joined_late_def hub_with_one_entry_def hub_and_usa_def
        lru_defs hub_defs obs_defs)
  from two one joined shared removed show ?thesis by (simp only: simp_thms)
qed

lemma canada_capacity_two_world:
  "new_CanadaLRU 0 (Some 2) None hub_with_one_entry = Done (ObjectRef 2) canada_capacity_two"
  by (simp add: canada_capacity_two_def hub_with_one_entry_def hub_and_usa_def lru_defs hub_defs)

lemma canada_wrote_b_world:
  "Region_write 2 ''b'' 2 None canada_capacity_two = Done Undefined canada_wrote_b"
  by (simp add: canada_wrote_b_def canada_capacity_two_def hub_with_one_entry_def hub_and_usa_def
      lru_defs hub_defs)

lemma canada_wrote_b_c_world:
  "Region_write 2 ''c'' 3 None canada_wrote_b = Done Undefined canada_wrote_b_c"
  by (simp add: canada_wrote_b_c_def canada_wrote_b_def canada_capacity_two_def
      hub_with_one_entry_def hub_and_usa_def lru_defs hub_defs)

text \<open>
  C1. The invariant does not hold of every cache: it fails for a \<^verbatim>\<open>CanadaLRU\<close> that joins a
  hub which already holds an entry, by the defect of its constructor (see C6). With the
  hub holding the single entry a, \<^verbatim>\<open>new CanadaLRU(hub, 2)\<close> completes; its index refers to
  the hub's node while head and tail are two clones. After \<^verbatim>\<open>write("b", 2)\<close> and
  \<^verbatim>\<open>write("c", 3)\<close> on the new cache, both of which complete, the eviction in the second
  write has gone through the index to the hub's node and has left the clone in the list:
  the index holds the two keys b and c and \<^verbatim>\<open>length\<close> is 2, the capacity, but the recency
  list from \<^verbatim>\<open>head\<close> has the three nodes c, b, a.
\<close>

theorem CanadaLRU_index_and_list_disagree:
  "entries hub_with_one_entry 0 = Some [(''a'', 1)]
   \<and> new_CanadaLRU 0 (Some 2) None hub_with_one_entry = Done (ObjectRef 2) canada_capacity_two
   \<and> Region_write 2 ''b'' 2 None canada_capacity_two = Done Undefined canada_wrote_b
   \<and> Region_write 2 ''c'' 3 None canada_wrote_b = Done Undefined canada_wrote_b_c
   \<and> map_option lru_class (w_objs canada_wrote_b_c 2) = Some CanadaLRU
   \<and> map_option lru_limit (w_objs canada_wrote_b_c 2) = Some 2
   \<and> map_option (\<lambda>obj. dom (lru_cache obj)) (w_objs canada_wrote_b_c 2) = Some {''c'', ''b''}
   \<and> map_option (\<lambda>obj. card (dom (lru_cache obj))) (w_objs canada_wrote_b_c 2) = Some 2
   \<and> map_option lru_length (w_objs canada_wrote_b_c 2) = Some 2
   \<and> entries canada_wrote_b_c 2 = Some [(''c'', 3), (''b'', 2), (''a'', 1)]
   \<and> map_option length (recency_list canada_wrote_b_c 2) = Some 3"
proof -
  have hub: "entries hub_with_one_entry 0 = Some [(''a'', 1)]"
    by (simp add: hub_with_one_entry_def hub_and_usa_def lru_defs hub_defs obs_defs)
  have index: "map_option lru_class (w_objs canada_wrote_b_c 2) = Some CanadaLRU
      \<and> map_option lru_limit (w_objs canada_wrote_b_c 2) = Some 2
      \<and> map_option (\<lambda>obj. dom (lru_cache obj)) (w_objs canada_wrote_b_c 2) = Some {''c'', ''b''}
      \<and> map_option (\<lambda>obj. card (dom (lru_cache obj))) (w_objs canada_wrote_b_c 2) = Some 2
      \<and> map_option lru_length (w_objs canada_wrote_b_c 2) = Some 2"
    by (simp add: canada_wrote_b_c_def canada_wrote_b_def canada_capacity_two_def
        hub_with_one_entry_def hub_and_usa_def lru_defs hub_defs)
  have list: "entries canada_wrote_b_c 2 = Some [(''c'', 3), (''b'', 2), (''a'', 1)]
      \<and> map_option length (recency_list canada_wrote_b_c 2) = Some 3"
    by (simp add: canada_wrote_b_c_def canada_wrote_b_def canada_capacity_two_def
        hub_with_one_entry_def hub_and_usa_def lru_defs hub_defs obs_defs)
  from hub canada_capacity_two_world canada_wrote_b_world canada_wrote_b_c_world index list
  show ?thesis by (simp only: simp_thms)
qed

section \<open>What a read returns and what it does to the expiry\<close>



section \<open>Doubly linked segments\<close>

lemma dll_cong:
  "(\<And>a. a \<in> set ns \<Longrightarrow> h' a = h a) \<Longrightarrow> dll h' p ns q = dll h p ns q"
  by (induction ns arbitrary: p) (auto split: option.splits)

lemma dll_nodes: "dll h p ns q \<Longrightarrow> a \<in> set ns \<Longrightarrow> h a \<noteq> None"
  by (induction ns arbitrary: p) (auto split: option.splits)

lemma case_hd_append:
  "(case xs @ ys of [] \<Rightarrow> q | b # _ \<Rightarrow> Some b)
   = (case xs of [] \<Rightarrow> (case ys of [] \<Rightarrow> q | b # _ \<Rightarrow> Some b) | b # _ \<Rightarrow> Some b)"
  by (cases xs) auto

lemma dll_append:
  "dll h p (xs @ ys) q =
     (dll h p xs (case ys of [] \<Rightarrow> q | b # _ \<Rightarrow> Some b)
      \<and> dll h (if xs = [] then p else Some (last xs)) ys q)"
proof (induction xs arbitrary: p)
  case Nil
  then show ?case by simp
next
  case (Cons a xs)
  show ?case
    unfolding append_Cons dll.simps Cons.IH case_hd_append
    by (cases xs) (auto split: option.splits)
qed

lemma dll_set_prev:
  assumes "dll h p (a # as) q" and "a \<notin> set as"
  shows "dll (h(a := map_option (\<lambda>n. n\<lparr>n_prev := p'\<rparr>) (h a))) p' (a # as) q"
proof -
  have "dll (h(a := map_option (\<lambda>n. n\<lparr>n_prev := p'\<rparr>) (h a))) (Some a) as q = dll h (Some a) as q"
    using assms(2) by (intro dll_cong) auto
  then show ?thesis
    using assms(1) by (auto split: option.splits)
qed

lemma dll_set_next:
  assumes "dll h p (xs @ [b]) q" and "b \<notin> set xs"
  shows "dll (h(b := map_option (\<lambda>n. n\<lparr>n_next := q'\<rparr>) (h b))) p (xs @ [b]) q'"
proof -
  have "dll (h(b := map_option (\<lambda>n. n\<lparr>n_next := q'\<rparr>) (h b))) p xs (Some b) = dll h p xs (Some b)"
    using assms(2) by (intro dll_cong) auto
  then show ?thesis
    using assms(1) unfolding dll_append by (auto split: option.splits)
qed

text \<open>The node in the middle of a list knows its neighbours.\<close>

lemma dll_middle:
  assumes "dll h p (xs @ a # ys) q"
  shows "\<exists>n. h a = Some n \<and> n_prev n = (if xs = [] then p else Some (last xs))
            \<and> n_next n = (case ys of [] \<Rightarrow> q | b # _ \<Rightarrow> Some b)"
  using assms unfolding dll_append by (auto split: option.splits)

lemma last_apart:
  assumes "distinct (xs @ a # ys)" and "xs \<noteq> []"
  shows "last xs \<notin> set ys" and "last xs \<noteq> a"
proof -
  from assms(2) have "last xs \<in> set xs" by simp
  with assms(1) show "last xs \<notin> set ys" and "last xs \<noteq> a" by auto
qed

lemma dll_unlink:
  assumes d: "dll h None (xs @ a # ys) None" and dist: "distinct (xs @ a # ys)"
    and n: "h a = Some n"
  shows "dll (unlink_nodes n h) None (xs @ ys) None"
proof -
  from d n have np: "n_prev n = (if xs = [] then None else Some (last xs))"
    and nn: "n_next n = (case ys of [] \<Rightarrow> None | b # _ \<Rightarrow> Some b)"
    using dll_middle [OF d] by auto
  from d have dx: "dll h None xs (Some a)"
    and dy: "dll h (Some a) ys None"
    unfolding dll_append by (auto split: option.splits)
  define h1 where "h1 = (case n_prev n of None \<Rightarrow> h
     | Some p \<Rightarrow> h(p := map_option (\<lambda>m. m\<lparr>n_next := n_next n\<rparr>) (h p)))"
  have h2: "unlink_nodes n h = (case n_next n of None \<Rightarrow> h1
     | Some q \<Rightarrow> h1(q := map_option (\<lambda>m. m\<lparr>n_prev := n_prev n\<rparr>) (h1 q)))"
    unfolding unlink_nodes_def h1_def Let_def ..
  have x1: "dll h1 None xs (n_next n)"
  proof (cases xs rule: rev_cases)
    case Nil
    then show ?thesis by simp
  next
    case (snoc xs' b)
    with dist have "b \<notin> set xs'" by auto
    with dx snoc show ?thesis
      unfolding h1_def np by (simp add: dll_set_next)
  qed
  have h1_other: "h1 b = h b" if "b \<notin> set xs" for b
  proof (cases "xs = []")
    case True
    then show ?thesis unfolding h1_def np by simp
  next
    case False
    then have "last xs \<in> set xs" by simp
    with that have "b \<noteq> last xs" by auto
    with False show ?thesis unfolding h1_def np by simp
  qed
  have y1: "dll h1 (Some a) ys None"
  proof -
    have "dll h1 (Some a) ys None = dll h (Some a) ys None"
      using dist by (intro dll_cong h1_other) auto
    with dy show ?thesis by simp
  qed
  have x2: "dll (unlink_nodes n h) None xs (n_next n)"
  proof -
    have "dll (unlink_nodes n h) None xs (n_next n) = dll h1 None xs (n_next n)"
      using dist unfolding h2 nn by (intro dll_cong) (auto split: list.splits)
    with x1 show ?thesis by simp
  qed
  have y2: "dll (unlink_nodes n h) (n_prev n) ys None"
  proof (cases ys)
    case Nil
    then show ?thesis by simp
  next
    case (Cons c ys')
    with dist have "c \<notin> set ys'" by auto
    with y1 Cons
    have "dll (h1(c := map_option (\<lambda>m. m\<lparr>n_prev := n_prev n\<rparr>) (h1 c))) (n_prev n) (c # ys') None"
      by (intro dll_set_prev) auto
    then show ?thesis
      unfolding h2 nn Cons by (simp only: list.case option.case)
  qed
  show ?thesis
    unfolding dll_append using x2 y2 unfolding np nn by (auto split: if_splits)
qed

lemma unlink_nodes_other:
  assumes "dll h None (xs @ a # ys) None" and "h a = Some n" and "b \<notin> set (xs @ a # ys)"
  shows "unlink_nodes n h b = h b"
proof -
  from assms have np: "n_prev n = (if xs = [] then None else Some (last xs))"
    and nn: "n_next n = (case ys of [] \<Rightarrow> None | b # _ \<Rightarrow> Some b)"
    using dll_middle [OF assms(1)] by auto
  have "b \<noteq> last xs" if "xs \<noteq> []"
  proof -
    from that have "last xs \<in> set xs" by simp
    with assms(3) show ?thesis by auto
  qed
  moreover have "b \<noteq> c" if "ys = c # ys'" for c ys'
    using that assms(3) by auto
  ultimately show ?thesis
    unfolding unlink_nodes_def Let_def np nn
    by (auto split: list.splits if_splits)
qed

lemma unlink_nodes_payload: "payload (unlink_nodes n h) b = payload h b"
  unfolding unlink_nodes_def Let_def payload_def
  by (auto split: option.splits simp: map_option_case)

lemma unlink_nodes_self:
  assumes "dll h None (xs @ a # ys) None" and "distinct (xs @ a # ys)" and "h a = Some n"
  shows "unlink_nodes n h a = Some n"
proof -
  from assms have np: "n_prev n = (if xs = [] then None else Some (last xs))"
    and nn: "n_next n = (case ys of [] \<Rightarrow> None | b # _ \<Rightarrow> Some b)"
    using dll_middle [OF assms(1)] by auto
  have "a \<noteq> last xs" if "xs \<noteq> []"
    using last_apart(2) [OF assms(2) that] by simp
  moreover have "a \<noteq> c" if "ys = c # ys'" for c ys'
    using that assms(2) by auto
  ultimately show ?thesis
    using assms(3) unfolding unlink_nodes_def Let_def np nn
    by (auto split: list.splits if_splits)
qed

lemma LRU_remove_own:
  assumes "w_objs w this = Some obj" and "lru_cache obj k = Some a" and "w_nodes w a = Some n"
  shows "\<exists>w'. LRU_remove this k w = Done Undefined w'
     \<and> w_nodes w' = unlink_nodes n (w_nodes w)
     \<and> w_objs w' = (w_objs w)(this \<mapsto> obj\<lparr>
           lru_head := (case n_prev n of None \<Rightarrow> n_next n | Some _ \<Rightarrow> lru_head obj),
           lru_tail := (case n_next n of None \<Rightarrow> n_prev n | Some _ \<Rightarrow> lru_tail obj),
           lru_cache := (lru_cache obj)(k := None),
           lru_length := lru_length obj - 1\<rparr>)
     \<and> w_timers w' = (case n_timeout n of None \<Rightarrow> w_timers w | Some t \<Rightarrow> (w_timers w)(t := None))
     \<and> w_next_addr w' = w_next_addr w \<and> w_next_oid w' = w_next_oid w
     \<and> w_next_tid w' = w_next_tid w \<and> w_now w' = w_now w"
  using assms
  by (cases "n_prev n"; cases "n_next n"; cases "n_timeout n")
     (simp_all add: LRU_remove_def cache_lookup_def clearTimeout_def set_next_def set_prev_def
       upd_obj_def unlink_nodes_def Let_def)

section \<open>The operations keep a cache well formed\<close>

lemma key_at_payload: "payload h' a = payload h a \<Longrightarrow> key_at h' a = key_at h a"
  unfolding payload_def key_at_def by (auto split: option.splits)

lemma timer_at_payload: "payload h' a = payload h a \<Longrightarrow> timer_at h' a = timer_at h a"
  unfolding payload_def timer_at_def by (auto split: option.splits)

lemma map_key_at_cong:
  "(\<And>a. a \<in> set ns \<Longrightarrow> payload h' a = payload h a)
   \<Longrightarrow> map (key_at h') ns = map (key_at h) ns"
  by (rule map_cong [OF refl]) (rule key_at_payload)

lemma index_of_cong:
  "(\<And>a. a \<in> set ns \<Longrightarrow> payload h' a = payload h a) \<Longrightarrow> index_of h' ns = index_of h ns"
proof -
  assume "\<And>a. a \<in> set ns \<Longrightarrow> payload h' a = payload h a"
  then have "map (\<lambda>a. (key_at h' a, a)) ns = map (\<lambda>a. (key_at h a, a)) ns"
    by (intro map_cong [OF refl]) (simp add: key_at_payload [of h' _ h])
  then show ?thesis unfolding index_of_def by (rule arg_cong)
qed

lemma index_of_Some:
  "distinct (map (key_at h) ns)
   \<Longrightarrow> (index_of h ns k = Some a) = (a \<in> set ns \<and> key_at h a = k)"
  unfolding index_of_def by (induction ns) (auto simp: image_iff)

lemma index_of_None: "(index_of h ns k = None) = (k \<notin> key_at h ` set ns)"
  unfolding index_of_def by (induction ns) auto

lemma index_of_remove:
  assumes "distinct (map (key_at h) (xs @ a # ys))"
  shows "index_of h (xs @ ys) = (index_of h (xs @ a # ys))(key_at h a := None)"
proof
  fix k
  show "index_of h (xs @ ys) k = ((index_of h (xs @ a # ys))(key_at h a := None)) k"
  proof (cases "index_of h (xs @ ys) k")
    case None
    then have "k \<notin> key_at h ` set (xs @ ys)" by (simp add: index_of_None)
    then have "k \<noteq> key_at h a \<longrightarrow> index_of h (xs @ a # ys) k = None"
      by (auto simp: index_of_None)
    with None show ?thesis by simp
  next
    case (Some b)
    from assms have d: "distinct (map (key_at h) (xs @ ys))" by simp
    from Some d have b: "b \<in> set (xs @ ys)" "key_at h b = k"
      by (simp_all add: index_of_Some)
    with assms have "k \<noteq> key_at h a" by (auto simp: image_iff)
    moreover from b have "index_of h (xs @ a # ys) k = Some b"
      using assms by (subst index_of_Some) auto
    ultimately show ?thesis using Some by simp
  qed
qed

lemma first_of_append_remove:
  "first_of (xs @ ys) = (if xs = [] then first_of ys else first_of (xs @ a # ys))"
  unfolding first_of_def by (cases xs) auto

lemma last_of_append_remove:
  "last_of (xs @ ys) = (if ys = [] then last_of xs else last_of (xs @ a # ys))"
  unfolding last_of_def by (cases ys) auto

lemma lru_okE:
  assumes "lru_ok w this ns"
  obtains obj where "w_objs w this = Some obj"
    and "dll (w_nodes w) None ns None" and "distinct ns" and "set ns \<subseteq> {..<w_next_addr w}"
    and "lru_head obj = first_of ns" and "lru_tail obj = last_of ns"
    and "lru_length obj = int (length ns)"
    and "distinct (map (key_at (w_nodes w)) ns)"
    and "set (map (key_at (w_nodes w)) ns) \<inter> set Object_prototype_keys = {}"
    and "lru_cache obj = index_of (w_nodes w) ns"
proof (cases "w_objs w this")
  case None
  with assms show ?thesis unfolding lru_ok_def by simp
next
  case (Some obj)
  with assms show ?thesis unfolding lru_ok_def by (intro that [of obj]) simp_all
qed

lemma LRU_remove_present:
  assumes ok: "lru_ok w this (xs @ a # ys)"
  shows "\<exists>w'. LRU_remove this (key_at (w_nodes w) a) w = Done Undefined w'
      \<and> lru_ok w' this (xs @ ys)
      \<and> frame w w' this (set (xs @ a # ys))
      \<and> w_timers w' = (case timer_at (w_nodes w) a of None \<Rightarrow> w_timers w
                        | Some t \<Rightarrow> (w_timers w)(t := None))
      \<and> w_next_addr w' = w_next_addr w \<and> w_next_tid w' = w_next_tid w
      \<and> w_nodes w' a = w_nodes w a"
proof -
  let ?h = "w_nodes w" and ?ns = "xs @ a # ys"
  from ok obtain obj where obj: "w_objs w this = Some obj"
    and d: "dll ?h None ?ns None" and dist: "distinct ?ns"
    and alloc: "set ?ns \<subseteq> {..<w_next_addr w}"
    and hd: "lru_head obj = first_of ?ns" and tl: "lru_tail obj = last_of ?ns"
    and len: "lru_length obj = int (length ?ns)"
    and keys: "distinct (map (key_at ?h) ?ns)"
    and proto: "set (map (key_at ?h) ?ns) \<inter> set Object_prototype_keys = {}"
    and idx: "lru_cache obj = index_of ?h ?ns"
    by (rule lru_okE)
  from dll_middle [OF d] obtain n where n: "?h a = Some n"
    and np: "n_prev n = (if xs = [] then None else Some (last xs))"
    and nn: "n_next n = (case ys of [] \<Rightarrow> None | b # _ \<Rightarrow> Some b)"
    by auto
  let ?k = "key_at ?h a"
  have own: "lru_cache obj ?k = Some a"
    unfolding idx using keys by (subst index_of_Some) auto
  from LRU_remove_own [OF obj own n] obtain w' where
    run: "LRU_remove this ?k w = Done Undefined w'"
    and nodes': "w_nodes w' = unlink_nodes n ?h"
    and objs': "w_objs w' = (w_objs w)(this \<mapsto> obj\<lparr>
           lru_head := (case n_prev n of None \<Rightarrow> n_next n | Some _ \<Rightarrow> lru_head obj),
           lru_tail := (case n_next n of None \<Rightarrow> n_prev n | Some _ \<Rightarrow> lru_tail obj),
           lru_cache := (lru_cache obj)(?k := None),
           lru_length := lru_length obj - 1\<rparr>)"
    and timers': "w_timers w' = (case n_timeout n of None \<Rightarrow> w_timers w
                                 | Some t \<Rightarrow> (w_timers w)(t := None))"
    and same: "w_next_addr w' = w_next_addr w" "w_next_oid w' = w_next_oid w"
              "w_next_tid w' = w_next_tid w" "w_now w' = w_now w"
    by (elim exE conjE)
  have pay: "payload (w_nodes w') b = payload ?h b" for b
    unfolding nodes' by (rule unlink_nodes_payload)
  have keys_same: "map (key_at (w_nodes w')) zs = map (key_at ?h) zs" for zs
    by (rule map_key_at_cong) (rule pay)
  have d': "dll (w_nodes w') None (xs @ ys) None"
    unfolding nodes' by (rule dll_unlink [OF d dist n])
  have hd': "(case n_prev n of None \<Rightarrow> n_next n | Some _ \<Rightarrow> lru_head obj) = first_of (xs @ ys)"
    unfolding np nn hd first_of_def by (cases xs; cases ys) auto
  have tl': "(case n_next n of None \<Rightarrow> n_prev n | Some _ \<Rightarrow> lru_tail obj) = last_of (xs @ ys)"
    unfolding np nn tl last_of_def by (cases xs rule: rev_cases; cases ys) auto
  have idx': "(lru_cache obj)(?k := None) = index_of (w_nodes w') (xs @ ys)"
  proof -
    have "index_of (w_nodes w') (xs @ ys) = index_of ?h (xs @ ys)"
      by (rule index_of_cong) (rule pay)
    then show ?thesis
      unfolding idx by (simp add: index_of_remove [OF keys])
  qed
  have ok': "lru_ok w' this (xs @ ys)"
    unfolding lru_ok_def objs'
    using d' dist alloc len keys proto hd' tl' idx'
    by (simp add: same keys_same)
  have "this \<in> dom (w_objs w)"
    using obj by auto
  then have fr: "frame w w' this (set ?ns)"
    unfolding frame_def
    using obj unlink_nodes_other [OF d n]
    by (simp add: objs' same nodes' unlink_nodes_payload static_fields_def insert_absorb)
  have t': "w_timers w' = (case timer_at ?h a of None \<Rightarrow> w_timers w
                           | Some t \<Rightarrow> (w_timers w)(t := None))"
    unfolding timers' timer_at_def n by simp
  have self: "w_nodes w' a = ?h a"
    unfolding nodes' n by (rule unlink_nodes_self [OF d dist n])
  from run ok' fr t' same(1,3) self show ?thesis by (intro exI [of _ w'] conjI)
qed

lemma LRU_remove_missing:
  assumes ok: "lru_ok w this ns" and k: "k \<notin> key_at (w_nodes w) ` set ns"
  shows "LRU_remove this k w =
           (if k \<in> set Object_prototype_keys then Threw TypeError w else Done Undefined w)"
proof -
  from ok obtain obj where obj: "w_objs w this = Some obj"
    and idx: "lru_cache obj = index_of (w_nodes w) ns"
    by (rule lru_okE)
  from k have "lru_cache obj k = None"
    unfolding idx by (simp add: index_of_None)
  with obj show ?thesis
    by (simp add: LRU_remove_def cache_lookup_def)
qed

lemma LRU_write_parts:
  "LRU_write this key val timeLimit w =
     andThen (remove_existing this key w)
       (\<lambda>w. andThen (evict_at_limit this w) (insert_at_head this key val timeLimit))"
  unfolding LRU_write_def remove_existing_def evict_at_limit_def insert_at_head_def ..

lemma insert_at_head_effect:
  assumes "w_objs w this = Some obj"
    and "lru_length obj = 0 \<or> lru_head obj \<noteq> None"
  shows "\<exists>w'. insert_at_head this key val timeLimit w = Done Undefined w'
     \<and> w_nodes w' =
         (let H = (w_nodes w)(w_next_addr w \<mapsto> \<lparr>n_key = key, n_val = val, n_prev = None,
                            n_next = (if lru_length obj = 0 then None else lru_head obj),
                            n_timeout = Some (w_next_tid w)\<rparr>)
          in case (if lru_length obj = 0 then None else lru_head obj) of
               None \<Rightarrow> H
             | Some h \<Rightarrow> H(h := map_option (\<lambda>m. m\<lparr>n_prev := Some (w_next_addr w)\<rparr>) (H h)))
     \<and> w_objs w' = (w_objs w)(this \<mapsto> obj\<lparr>
           lru_head := Some (w_next_addr w),
           lru_tail := (if lru_length obj = 0 then Some (w_next_addr w) else lru_tail obj),
           lru_cache := (lru_cache obj)(key \<mapsto> w_next_addr w),
           lru_length := lru_length obj + 1\<rparr>)
     \<and> w_timers w' = (w_timers w)(w_next_tid w \<mapsto>
           \<lparr>t_owner = this, t_key = key, t_armed = w_now w,
            t_delay = timeoutTime obj timeLimit\<rparr>)
     \<and> w_next_addr w' = Suc (w_next_addr w) \<and> w_next_oid w' = w_next_oid w
     \<and> w_next_tid w' = Suc (w_next_tid w) \<and> w_now w' = w_now w"
proof (cases "lru_length obj = 0")
  case True
  with assms(1) show ?thesis
    by (cases "lru_head obj")
       (simp_all add: insert_at_head_def setTimeout_def new_Node_def upd_obj_def timeoutTime_def
          Let_def)
next
  case False
  with assms(2) obtain h where "lru_head obj = Some h" by auto
  with assms(1) False show ?thesis
    by (simp add: insert_at_head_def setTimeout_def new_Node_def upd_obj_def set_prev_def
        timeoutTime_def Let_def)
qed

lemma payload_set_prev:
  "payload (h(a := map_option (\<lambda>m. m\<lparr>n_prev := p\<rparr>) (h a))) b = payload h b"
  unfolding payload_def by (auto split: option.splits simp: map_option_case)

lemma insert_at_head_ok:
  assumes ok: "lru_ok w this ns"
    and fresh: "key \<notin> key_at (w_nodes w) ` set ns"
    and proto: "key \<notin> set Object_prototype_keys"
  shows "\<exists>w' obj. insert_at_head this key val timeLimit w = Done Undefined w'
      \<and> w_objs w this = Some obj
      \<and> lru_ok w' this (w_next_addr w # ns)
      \<and> frame w w' this (set ns)
      \<and> w_nodes w' (w_next_addr w) =
           Some \<lparr>n_key = key, n_val = val, n_prev = None, n_next = first_of ns,
                 n_timeout = Some (w_next_tid w)\<rparr>
      \<and> w_timers w' = (w_timers w)(w_next_tid w \<mapsto>
           \<lparr>t_owner = this, t_key = key, t_armed = w_now w,
            t_delay = timeoutTime obj timeLimit\<rparr>)
      \<and> w_next_addr w' = Suc (w_next_addr w) \<and> w_next_tid w' = Suc (w_next_tid w)"
proof -
  let ?h = "w_nodes w" and ?a = "w_next_addr w"
  from ok obtain obj where obj: "w_objs w this = Some obj"
    and d: "dll ?h None ns None" and dist: "distinct ns"
    and alloc: "set ns \<subseteq> {..<w_next_addr w}"
    and hd: "lru_head obj = first_of ns" and tl: "lru_tail obj = last_of ns"
    and len: "lru_length obj = int (length ns)"
    and keys: "distinct (map (key_at ?h) ns)"
    and protos: "set (map (key_at ?h) ns) \<inter> set Object_prototype_keys = {}"
    and idx: "lru_cache obj = index_of ?h ns"
    by (rule lru_okE)
  have empty: "(lru_length obj = 0) = (ns = [])"
    unfolding len by simp
  have new: "?a \<notin> set ns"
    using alloc by auto
  have pre: "lru_length obj = 0 \<or> lru_head obj \<noteq> None"
    unfolding empty hd first_of_def by (cases ns) auto
  let ?node = "\<lparr>n_key = key, n_val = val, n_prev = None,
                 n_next = (if lru_length obj = 0 then None else lru_head obj),
                 n_timeout = Some (w_next_tid w)\<rparr>"
  let ?H = "?h(?a \<mapsto> ?node)"
  from insert_at_head_effect [OF obj pre, of key val timeLimit] obtain w' where
    run: "insert_at_head this key val timeLimit w = Done Undefined w'"
    and nodes': "w_nodes w' = (let H = ?H
          in case (if lru_length obj = 0 then None else lru_head obj) of
               None \<Rightarrow> H
             | Some h \<Rightarrow> H(h := map_option (\<lambda>m. m\<lparr>n_prev := Some ?a\<rparr>) (H h)))"
    and objs': "w_objs w' = (w_objs w)(this \<mapsto> obj\<lparr>
           lru_head := Some ?a,
           lru_tail := (if lru_length obj = 0 then Some ?a else lru_tail obj),
           lru_cache := (lru_cache obj)(key \<mapsto> ?a),
           lru_length := lru_length obj + 1\<rparr>)"
    and timers': "w_timers w' = (w_timers w)(w_next_tid w \<mapsto>
           \<lparr>t_owner = this, t_key = key, t_armed = w_now w,
            t_delay = timeoutTime obj timeLimit\<rparr>)"
    and same: "w_next_addr w' = Suc ?a" "w_next_oid w' = w_next_oid w"
              "w_next_tid w' = Suc (w_next_tid w)" "w_now w' = w_now w"
    by (elim exE conjE)
  have next_eq: "(if lru_length obj = 0 then None else lru_head obj) = first_of ns"
    unfolding empty hd first_of_def by (cases ns) auto
  have nodes'': "w_nodes w' = (case ns of [] \<Rightarrow> ?H
     | b # _ \<Rightarrow> ?H(b := map_option (\<lambda>m. m\<lparr>n_prev := Some ?a\<rparr>) (?H b)))"
    unfolding nodes' Let_def next_eq first_of_def by (cases ns) simp_all
  have at_new: "w_nodes w' ?a = Some (?node\<lparr>n_next := first_of ns\<rparr>)"
    using new unfolding nodes'' next_eq by (cases ns) auto
  have old: "payload (w_nodes w') b = payload ?h b" if "b \<noteq> ?a" for b
  proof -
    have "payload (w_nodes w') b = payload ?H b"
      unfolding nodes'' by (cases ns) (simp_all only: list.case payload_set_prev)
    also have "\<dots> = payload ?h b"
      using that by (simp add: payload_def)
    finally show ?thesis .
  qed
  have untouched: "w_nodes w' b = ?h b" if "b \<notin> set ns" "b \<noteq> ?a" for b
    using that unfolding nodes'' by (cases ns) auto
  have pay: "payload (w_nodes w') b = payload ?h b" if "b \<in> set ns" for b
    using that new by (intro old) auto
  have d': "dll (w_nodes w') None (?a # ns) None"
  proof (cases ns)
    case Nil
    then show ?thesis unfolding nodes'' next_eq by (simp add: first_of_def)
  next
    case (Cons b bs)
    have "dll ?H None (b # bs) None = dll ?h None (b # bs) None"
      using new Cons by (intro dll_cong) auto
    with d Cons have "dll ?H None (b # bs) None" by simp
    moreover from dist Cons have "b \<notin> set bs" by simp
    ultimately have "dll (?H(b := map_option (\<lambda>m. m\<lparr>n_prev := Some ?a\<rparr>) (?H b)))
        (Some ?a) (b # bs) None"
      by (rule dll_set_prev)
    moreover from new Cons have "b \<noteq> ?a" by auto
    ultimately show ?thesis
      unfolding nodes'' next_eq Cons by (simp add: first_of_def)
  qed
  have key_new: "key_at (w_nodes w') ?a = key"
    unfolding key_at_def at_new by simp
  have keys_old: "map (key_at (w_nodes w')) ns = map (key_at ?h) ns"
    by (rule map_key_at_cong) (rule pay)
  have idx': "(lru_cache obj)(key \<mapsto> ?a) = index_of (w_nodes w') (?a # ns)"
  proof -
    have "index_of (w_nodes w') ns = index_of ?h ns"
      by (rule index_of_cong) (rule pay)
    then have "index_of (w_nodes w') (?a # ns) = (index_of ?h ns)(key \<mapsto> ?a)"
      unfolding index_of_def by (simp add: key_new)
    then show ?thesis unfolding idx by simp
  qed
  have tl': "(if lru_length obj = 0 then Some ?a else lru_tail obj) = last_of (?a # ns)"
    unfolding empty tl last_of_def by simp
  have ok': "lru_ok w' this (?a # ns)"
    unfolding lru_ok_def objs'
    using d' dist new alloc len keys protos proto fresh tl' idx'
    by (simp add: same key_new keys_old less_Suc_eq subset_iff first_of_def)
  have "this \<in> dom (w_objs w)"
    using obj by auto
  then have fr: "frame w w' this (set ns)"
    unfolding frame_def using obj untouched old
    by (simp add: objs' same static_fields_def insert_absorb)
  from at_new have at_new': "w_nodes w' ?a =
      Some \<lparr>n_key = key, n_val = val, n_prev = None, n_next = first_of ns,
            n_timeout = Some (w_next_tid w)\<rparr>"
    by simp
  from run obj ok' fr at_new' timers' same(1,3) show ?thesis
    by (intro exI [of _ w'] exI [of _ obj] conjI)
qed

lemma frame_refl: "frame w w this A"
  unfolding frame_def by simp

lemma frame_trans:
  assumes "frame w w1 this A" and "frame w1 w2 this B"
  shows "frame w w2 this (A \<union> B)"
proof -
  have le: "w_next_addr w \<le> w_next_addr w1"
    using assms(1) unfolding frame_def by simp
  have "w_nodes w2 b = w_nodes w b" if "b \<notin> A \<union> B" "b < w_next_addr w" for b
  proof -
    from that le have "b < w_next_addr w1" by simp
    with that assms(2) have "w_nodes w2 b = w_nodes w1 b"
      unfolding frame_def by simp
    with that assms(1) show ?thesis
      unfolding frame_def by simp
  qed
  moreover have "payload (w_nodes w2) b = payload (w_nodes w) b" if "b < w_next_addr w" for b
  proof -
    from that le have "b < w_next_addr w1" by simp
    with assms(2) have "payload (w_nodes w2) b = payload (w_nodes w1) b"
      unfolding frame_def by simp
    with that assms(1) show ?thesis
      unfolding frame_def by simp
  qed
  ultimately show ?thesis
    using assms unfolding frame_def by simp
qed

lemma frame_mono: "frame w w' this A \<Longrightarrow> A \<subseteq> B \<Longrightarrow> frame w w' this B"
  unfolding frame_def by auto

lemma cancel_empty: "cancel {} T = T"
  unfolding cancel_def by simp

lemma cancel_None: "cancel {None} T = T"
  unfolding cancel_def by simp

lemma cancel_one: "cancel {Some t} T = T(t := None)"
  unfolding cancel_def by auto

lemma cancel_cancel: "cancel S (cancel S' T) = cancel (S \<union> S') T"
  unfolding cancel_def by auto

lemma without_key_absent:
  "key \<notin> key_at h ` set ns \<Longrightarrow> without_key h key ns = ns"
  unfolding without_key_def by (induction ns) auto

lemma without_key_present:
  assumes "distinct (map (key_at h) (xs @ a # ys))"
  shows "without_key h (key_at h a) (xs @ a # ys) = xs @ ys"
proof -
  from assms have "key_at h a \<notin> key_at h ` set xs" "key_at h a \<notin> key_at h ` set ys"
    by auto
  then show ?thesis
    using without_key_absent [of "key_at h a" h xs] without_key_absent [of "key_at h a" h ys]
    unfolding without_key_def by simp
qed

lemma LRU_remove_proto:
  assumes ok: "lru_ok w this ns" and proto: "key \<in> set Object_prototype_keys"
  shows "LRU_remove this key w = Threw TypeError w"
proof -
  from ok obtain obj where
    protos: "set (map (key_at (w_nodes w)) ns) \<inter> set Object_prototype_keys = {}"
    by (rule lru_okE)
  with proto have "key \<notin> key_at (w_nodes w) ` set ns" by auto
  with LRU_remove_missing [OF ok this] proto show ?thesis by simp
qed

lemma LRU_remove_ok:
  assumes ok: "lru_ok w this ns" and proto: "key \<notin> set Object_prototype_keys"
  shows "\<exists>w'. LRU_remove this key w = Done Undefined w'
      \<and> lru_ok w' this (without_key (w_nodes w) key ns)
      \<and> frame w w' this (set ns)
      \<and> w_timers w' = cancel (timer_at (w_nodes w) ` {a \<in> set ns. key_at (w_nodes w) a = key})
                              (w_timers w)
      \<and> w_next_addr w' = w_next_addr w \<and> w_next_tid w' = w_next_tid w"
proof (cases "key \<in> key_at (w_nodes w) ` set ns")
  case False
  then have "{a \<in> set ns. key_at (w_nodes w) a = key} = {}" by auto
  then have c: "cancel (timer_at (w_nodes w) ` {a \<in> set ns. key_at (w_nodes w) a = key})
      (w_timers w) = w_timers w"
    by (simp only: image_empty cancel_empty)
  from LRU_remove_missing [OF ok False] proto
  have r: "LRU_remove this key w = Done Undefined w" by simp
  from ok have o: "lru_ok w this (without_key (w_nodes w) key ns)"
    by (simp only: without_key_absent [OF False])
  from r o frame_refl c [symmetric] show ?thesis
    by (intro exI [of _ w] conjI refl)
next
  case True
  then obtain a where a: "a \<in> set ns" "key_at (w_nodes w) a = key" by auto
  from split_list [OF a(1)] obtain xs ys where ns: "ns = xs @ a # ys"
    by blast
  from ok obtain obj where keys: "distinct (map (key_at (w_nodes w)) ns)"
    by (rule lru_okE)
  then have inj: "inj_on (key_at (w_nodes w)) (set ns)"
    by (simp add: distinct_map)
  have only: "{b \<in> set ns. key_at (w_nodes w) b = key} = {a}"
  proof (intro equalityI subsetI)
    fix b assume "b \<in> {b \<in> set ns. key_at (w_nodes w) b = key}"
    then have "b \<in> set ns" "key_at (w_nodes w) b = key_at (w_nodes w) a"
      using a(2) by simp_all
    with inj_onD [OF inj _ _ a(1)] show "b \<in> {a}" by simp
  next
    fix b assume "b \<in> {a}"
    with a show "b \<in> {b \<in> set ns. key_at (w_nodes w) b = key}" by simp
  qed
  have c: "(case timer_at (w_nodes w) a of None \<Rightarrow> w_timers w
            | Some t \<Rightarrow> (w_timers w)(t := None))
           = cancel {timer_at (w_nodes w) a} (w_timers w)"
    by (cases "timer_at (w_nodes w) a") (simp_all add: cancel_None cancel_one)
  from LRU_remove_present [OF ok [unfolded ns]] obtain w' where
    run: "LRU_remove this (key_at (w_nodes w) a) w = Done Undefined w'"
    and ok': "lru_ok w' this (xs @ ys)"
    and fr: "frame w w' this (set (xs @ a # ys))"
    and tm: "w_timers w' = (case timer_at (w_nodes w) a of None \<Rightarrow> w_timers w
                        | Some t \<Rightarrow> (w_timers w)(t := None))"
    and same: "w_next_addr w' = w_next_addr w" "w_next_tid w' = w_next_tid w"
    by (elim exE conjE)
  have wk: "without_key (w_nodes w) key ns = xs @ ys"
    using without_key_present [OF keys [unfolded ns]] unfolding a(2) ns .
  from run have r: "LRU_remove this key w = Done Undefined w'"
    unfolding a(2) .
  from ok' have o: "lru_ok w' this (without_key (w_nodes w) key ns)"
    unfolding wk .
  from fr have f: "frame w w' this (set ns)"
    unfolding ns .
  from tm have t: "w_timers w' = cancel (timer_at (w_nodes w) `
      {a \<in> set ns. key_at (w_nodes w) a = key}) (w_timers w)"
    unfolding only c by simp
  from r o f t same show ?thesis
    by (intro exI [of _ w'] conjI)
qed

lemma remove_existing_eq:
  assumes ok: "lru_ok w this ns"
  shows "remove_existing this key w = LRU_remove this key w"
proof -
  from ok obtain obj where obj: "w_objs w this = Some obj"
    by (rule lru_okE)
  then show ?thesis
    by (simp add: remove_existing_def LRU_remove_def)
qed

lemma evict_at_limit_ok:
  assumes ok: "lru_ok w this ns" and obj: "w_objs w this = Some obj"
    and limit: "lru_limit obj \<noteq> 0"
  shows "\<exists>w'. evict_at_limit this w = Done Undefined w'
      \<and> lru_ok w' this (evicted (lru_limit obj) ns)
      \<and> frame w w' this (set ns)
      \<and> w_timers w' = cancel (timer_at (w_nodes w) ` (set ns - set (evicted (lru_limit obj) ns)))
                              (w_timers w)
      \<and> w_next_addr w' = w_next_addr w \<and> w_next_tid w' = w_next_tid w"
proof -
  from ok obtain obj' where "w_objs w this = Some obj'"
    and len': "lru_length obj' = int (length ns)"
    and tl': "lru_tail obj' = last_of ns"
    and d: "dll (w_nodes w) None ns None" and dist: "distinct ns"
    by (rule lru_okE)
  with obj have len: "lru_length obj = int (length ns)" and tl: "lru_tail obj = last_of ns"
    by simp_all
  show ?thesis
  proof (cases "int (length ns) = lru_limit obj")
    case False
    with len obj ok show ?thesis
      by (simp add: evict_at_limit_def LRU_isAtLimit_def evicted_def frame_refl cancel_empty)
  next
    case True
    with limit have ne: "ns \<noteq> []" by auto
    then have ns: "butlast ns @ last ns # [] = ns" by simp
    from dll_nodes [OF d, of "last ns"] ne obtain tn where tn: "w_nodes w (last ns) = Some tn"
      by auto
    then have key: "key_at (w_nodes w) (last ns) = n_key tn"
      by (simp add: key_at_def)
    have ev: "evict_at_limit this w = LRU_remove this (n_key tn) w"
      using obj True len tl ne tn
      by (simp add: evict_at_limit_def LRU_isAtLimit_def last_of_def)
    have diff: "set ns - set (butlast ns) = {last ns}"
    proof -
      from dist have "distinct (butlast ns @ last ns # [])"
        unfolding ns .
      then have "last ns \<notin> set (butlast ns)" by simp
      moreover have "set ns = insert (last ns) (set (butlast ns))"
        using arg_cong [OF ns, of set] by simp
      ultimately show ?thesis by auto
    qed
    have c: "(case timer_at (w_nodes w) (last ns) of None \<Rightarrow> w_timers w
              | Some t \<Rightarrow> (w_timers w)(t := None))
             = cancel {timer_at (w_nodes w) (last ns)} (w_timers w)"
      by (cases "timer_at (w_nodes w) (last ns)") (simp_all add: cancel_None cancel_one)
    have ok2: "lru_ok w this (butlast ns @ last ns # [])"
      using ok unfolding ns .
    from LRU_remove_present [OF ok2] obtain w' where
      run: "LRU_remove this (key_at (w_nodes w) (last ns)) w = Done Undefined w'"
      and ok': "lru_ok w' this (butlast ns @ [])"
      and fr: "frame w w' this (set (butlast ns @ last ns # []))"
      and tm: "w_timers w' = (case timer_at (w_nodes w) (last ns) of None \<Rightarrow> w_timers w
                          | Some t \<Rightarrow> (w_timers w)(t := None))"
      and same: "w_next_addr w' = w_next_addr w" "w_next_tid w' = w_next_tid w"
      by (elim exE conjE)
    have e: "evicted (lru_limit obj) ns = butlast ns"
      using True by (simp add: evicted_def)
    from run have r: "evict_at_limit this w = Done Undefined w'"
      unfolding ev key .
    from ok' have o: "lru_ok w' this (evicted (lru_limit obj) ns)"
      unfolding e by simp
    from fr have f: "frame w w' this (set ns)"
      unfolding ns .
    from tm have t: "w_timers w' = cancel (timer_at (w_nodes w) `
        (set ns - set (evicted (lru_limit obj) ns))) (w_timers w)"
      unfolding c e diff by simp
    from r o f t same show ?thesis
      by (intro exI [of _ w'] conjI)
  qed
qed

lemma set_without_key: "set (without_key h key ns) = {a \<in> set ns. key_at h a \<noteq> key}"
  unfolding without_key_def by auto

lemma set_evicted: "set (evicted limit ns) \<subseteq> set ns"
  unfolding evicted_def by (auto dest: in_set_butlastD)

lemma frame_payload:
  "frame w w' this A \<Longrightarrow> b < w_next_addr w \<Longrightarrow> payload (w_nodes w') b = payload (w_nodes w) b"
  unfolding frame_def by simp

lemma frame_key_at:
  assumes "frame w w' this A" and "b < w_next_addr w"
  shows "key_at (w_nodes w') b = key_at (w_nodes w) b"
  by (rule key_at_payload) (rule frame_payload [OF assms])

lemma frame_timer_at:
  assumes "frame w w' this A" and "b < w_next_addr w"
  shows "timer_at (w_nodes w') b = timer_at (w_nodes w) b"
  by (rule timer_at_payload) (rule frame_payload [OF assms])

lemma frame_obj:
  assumes "frame w w' this A" and "w_objs w this = Some obj"
  obtains obj' where "w_objs w' this = Some obj'"
    and "lru_class obj' = lru_class obj" and "lru_limit obj' = lru_limit obj"
    and "lru_timeLimit obj' = lru_timeLimit obj" and "lru_lruKey obj' = lru_lruKey obj"
    and "lru_globalLRU obj' = lru_globalLRU obj" and "lru_lrus obj' = lru_lrus obj"
proof -
  from assms have s: "map_option static_fields (w_objs w' this) = Some (static_fields obj)"
    and l: "map_option lru_lrus (w_objs w' this) = Some (lru_lrus obj)"
    unfolding frame_def by simp_all
  then obtain obj' where o: "w_objs w' this = Some obj'" by auto
  with s l show ?thesis
    by (intro that [of obj']) (simp_all add: static_fields_def)
qed

lemma frame_now: "frame w w' this A \<Longrightarrow> w_now w' = w_now w"
  unfolding frame_def by simp

lemma LRU_write_ok:
  assumes ok: "lru_ok w this ns" and obj: "w_objs w this = Some obj"
    and limit: "lru_limit obj \<noteq> 0" and proto: "key \<notin> set Object_prototype_keys"
  shows "\<exists>w'. LRU_write this key val timeLimit w = Done Undefined w'
      \<and> lru_ok w' this (written (w_nodes w) (lru_limit obj) key (w_next_addr w) ns)
      \<and> frame w w' this (set ns)
      \<and> w_nodes w' (w_next_addr w) =
           Some \<lparr>n_key = key, n_val = val, n_prev = None,
                 n_next = first_of (evicted (lru_limit obj) (without_key (w_nodes w) key ns)),
                 n_timeout = Some (w_next_tid w)\<rparr>
      \<and> w_timers w' =
           (cancel (timer_at (w_nodes w) `
                     (set ns - set (evicted (lru_limit obj) (without_key (w_nodes w) key ns))))
              (w_timers w))
           (w_next_tid w \<mapsto> \<lparr>t_owner = this, t_key = key, t_armed = w_now w,
                                t_delay = timeoutTime obj timeLimit\<rparr>)
      \<and> w_next_addr w' = Suc (w_next_addr w) \<and> w_next_tid w' = Suc (w_next_tid w)"
proof -
  let ?h = "w_nodes w"
  let ?ns1 = "without_key ?h key ns"
  let ?ns2 = "evicted (lru_limit obj) ?ns1"
  from ok obtain obj0 where alloc: "set ns \<subseteq> {..<w_next_addr w}"
    by (rule lru_okE)
  have sub1: "set ?ns1 \<subseteq> set ns"
    by (auto simp: set_without_key)
  have sub2: "set ?ns2 \<subseteq> set ?ns1"
    by (rule set_evicted)
  \<comment> \<open>the entry the key already has is removed\<close>
  from LRU_remove_ok [OF ok proto] obtain w1 where
    run1: "LRU_remove this key w = Done Undefined w1"
    and ok1: "lru_ok w1 this ?ns1"
    and fr1: "frame w w1 this (set ns)"
    and tm1: "w_timers w1 = cancel (timer_at ?h ` {a \<in> set ns. key_at ?h a = key}) (w_timers w)"
    and same1: "w_next_addr w1 = w_next_addr w" "w_next_tid w1 = w_next_tid w"
    by (elim exE conjE)
  from fr1 obj obtain obj1 where obj1: "w_objs w1 this = Some obj1"
    and lim1: "lru_limit obj1 = lru_limit obj" and tl1: "lru_timeLimit obj1 = lru_timeLimit obj"
    by (rule frame_obj)
  \<comment> \<open>the tail is evicted if the cache is at its limit\<close>
  from limit lim1 have "lru_limit obj1 \<noteq> 0" by simp
  from evict_at_limit_ok [OF ok1 obj1 this] obtain w2 where
    run2: "evict_at_limit this w1 = Done Undefined w2"
    and ok2: "lru_ok w2 this ?ns2"
    and fr2: "frame w1 w2 this (set ?ns1)"
    and tm2: "w_timers w2 = cancel (timer_at (w_nodes w1) ` (set ?ns1 - set ?ns2)) (w_timers w1)"
    and same2: "w_next_addr w2 = w_next_addr w1" "w_next_tid w2 = w_next_tid w1"
    unfolding lim1 by (elim exE conjE)
  from fr2 obj1 obtain obj2 where obj2: "w_objs w2 this = Some obj2"
    and tl2: "lru_timeLimit obj2 = lru_timeLimit obj1"
    by (rule frame_obj)
  have fr12: "frame w w2 this (set ns)"
    using frame_trans [OF fr1 fr2] sub1 by (simp add: Un_absorb2)
  \<comment> \<open>the new node is linked in at the head\<close>
  have keys2: "key_at (w_nodes w2) b = key_at ?h b" if "b \<in> set ns" for b
    using that alloc by (intro frame_key_at [OF fr12]) auto
  have fresh: "key \<notin> key_at (w_nodes w2) ` set ?ns2"
  proof
    assume "key \<in> key_at (w_nodes w2) ` set ?ns2"
    then obtain b where b: "b \<in> set ?ns2" "key = key_at (w_nodes w2) b" by auto
    with sub2 have "b \<in> set ?ns1" by auto
    then have "b \<in> set ns" "key_at ?h b \<noteq> key"
      by (simp_all add: set_without_key)
    with keys2 b(2) show False by simp
  qed
  from insert_at_head_ok [OF ok2 fresh proto, of val timeLimit] obtain w3 obj2' where
    run3: "insert_at_head this key val timeLimit w2 = Done Undefined w3"
    and obj2': "w_objs w2 this = Some obj2'"
    and ok3: "lru_ok w3 this (w_next_addr w2 # ?ns2)"
    and fr3: "frame w2 w3 this (set ?ns2)"
    and new3: "w_nodes w3 (w_next_addr w2) =
           Some \<lparr>n_key = key, n_val = val, n_prev = None, n_next = first_of ?ns2,
                 n_timeout = Some (w_next_tid w2)\<rparr>"
    and tm3: "w_timers w3 = (w_timers w2)(w_next_tid w2 \<mapsto>
           \<lparr>t_owner = this, t_key = key, t_armed = w_now w2,
            t_delay = timeoutTime obj2' timeLimit\<rparr>)"
    and same3: "w_next_addr w3 = Suc (w_next_addr w2)" "w_next_tid w3 = Suc (w_next_tid w2)"
    by (elim exE conjE)
  from obj2 obj2' have "obj2' = obj2" by simp
  with tl1 tl2 have delay: "timeoutTime obj2' timeLimit = timeoutTime obj timeLimit"
    by (simp add: timeoutTime_def split: option.splits)
  have now2: "w_now w2 = w_now w"
    using frame_now [OF fr12] .
  have run: "LRU_write this key val timeLimit w = Done Undefined w3"
    unfolding LRU_write_parts remove_existing_eq [OF ok] run1 andThen.simps run2 run3 ..
  have ok': "lru_ok w3 this (written ?h (lru_limit obj) key (w_next_addr w) ns)"
    using ok3 unfolding written_def same2 same1 .
  have fr: "frame w w3 this (set ns)"
    using frame_trans [OF fr12 fr3] sub1 sub2 by (simp add: Un_absorb2 subset_trans)
  have new: "w_nodes w3 (w_next_addr w) =
           Some \<lparr>n_key = key, n_val = val, n_prev = None, n_next = first_of ?ns2,
                 n_timeout = Some (w_next_tid w)\<rparr>"
    using new3 unfolding same2 same1 .
  have timers1: "timer_at (w_nodes w1) ` (set ?ns1 - set ?ns2) = timer_at ?h ` (set ?ns1 - set ?ns2)"
  proof (rule image_cong [OF refl])
    fix b assume "b \<in> set ?ns1 - set ?ns2"
    with sub1 alloc have "b < w_next_addr w" by auto
    then show "timer_at (w_nodes w1) b = timer_at ?h b"
      by (rule frame_timer_at [OF fr1])
  qed
  have cut: "{a \<in> set ns. key_at ?h a = key} \<union> (set ?ns1 - set ?ns2) = set ns - set ?ns2"
    using sub2 by (auto simp: set_without_key)
  have tm: "w_timers w3 =
           (cancel (timer_at ?h ` (set ns - set ?ns2)) (w_timers w))
           (w_next_tid w \<mapsto> \<lparr>t_owner = this, t_key = key, t_armed = w_now w,
                                t_delay = timeoutTime obj timeLimit\<rparr>)"
    unfolding tm3 tm2 tm1 timers1 cancel_cancel image_Un [symmetric] delay now2 same2 same1
    by (simp only: cut Un_commute)
  have cnt: "w_next_addr w3 = Suc (w_next_addr w)" "w_next_tid w3 = Suc (w_next_tid w)"
    unfolding same3 same2 same1 by simp_all
  from run ok' fr new tm cnt show ?thesis
    by (intro exI [of _ w3] conjI)
qed

section \<open>The operations keep the store well formed\<close>

lemma index_of_same:
  "(\<And>a. a \<in> set ns \<Longrightarrow> h' a = h a) \<Longrightarrow> index_of h' ns = index_of h ns"
  by (rule index_of_cong) (simp add: payload_def)

lemma map_key_at_same:
  "(\<And>a. a \<in> set ns \<Longrightarrow> h' a = h a) \<Longrightarrow> map (key_at h') ns = map (key_at h) ns"
  by (rule map_key_at_cong) (simp add: payload_def)

lemma lru_ok_other:
  assumes ok: "lru_ok w this ns" and fr: "frame w w' other A"
    and ne: "this \<noteq> other" and disj: "set ns \<inter> A = {}"
  shows "lru_ok w' this ns"
proof -
  from ok obtain obj where obj: "w_objs w this = Some obj"
    and d: "dll (w_nodes w) None ns None" and dist: "distinct ns"
    and alloc: "set ns \<subseteq> {..<w_next_addr w}"
    and hd: "lru_head obj = first_of ns" and tl: "lru_tail obj = last_of ns"
    and len: "lru_length obj = int (length ns)"
    and keys: "distinct (map (key_at (w_nodes w)) ns)"
    and protos: "set (map (key_at (w_nodes w)) ns) \<inter> set Object_prototype_keys = {}"
    and idx: "lru_cache obj = index_of (w_nodes w) ns"
    by (rule lru_okE)
  from fr ne have obj': "w_objs w' this = Some obj"
    unfolding frame_def using obj by simp
  have same: "w_nodes w' b = w_nodes w b" if "b \<in> set ns" for b
  proof -
    from that disj have "b \<notin> A" by auto
    moreover from that alloc have "b < w_next_addr w" by auto
    ultimately show ?thesis using fr unfolding frame_def by simp
  qed
  have d': "dll (w_nodes w') None ns None"
    using d dll_cong [of ns "w_nodes w'" "w_nodes w", OF same] by simp
  have k': "map (key_at (w_nodes w')) ns = map (key_at (w_nodes w)) ns"
    by (rule map_key_at_same) (rule same)
  have i': "index_of (w_nodes w') ns = index_of (w_nodes w) ns"
    by (rule index_of_same) (rule same)
  have le: "w_next_addr w \<le> w_next_addr w'"
    using fr unfolding frame_def by simp
  with alloc have alloc': "set ns \<subseteq> {..<w_next_addr w'}" by auto
  show ?thesis
    unfolding lru_ok_def obj' using d' dist alloc' hd tl len keys protos idx
    by (simp add: k' i')
qed

lemma heap_okD:
  assumes "heap_ok w L"
  shows "this \<in> dom (w_objs w) \<Longrightarrow> lru_ok w this (L this)"
    and "o1 \<noteq> o2 \<Longrightarrow> set (L o1) \<inter> set (L o2) = {}"
    and "set (L this) \<subseteq> {..<w_next_addr w}"
    and "dom (w_objs w) \<subseteq> {..<w_next_oid w}"
  using assms unfolding heap_ok_def by simp_all

lemma heap_ok_step:
  assumes H: "heap_ok w L" and o: "w_objs w this = Some obj"
    and ok': "lru_ok w' this ns'"
    and fr: "frame w w' this (set (L this))"
    and sub: "set ns' \<subseteq> insert (w_next_addr w) (set (L this))"
  shows "heap_ok w' (L(this := ns'))"
proof -
  have le: "w_next_addr w \<le> w_next_addr w'" and dom: "dom (w_objs w') = dom (w_objs w)"
    and oid: "w_next_oid w' = w_next_oid w"
    using fr unfolding frame_def by simp_all
  have 1: "lru_ok w' x ((L(this := ns')) x)" if "x \<in> dom (w_objs w')" for x
  proof (cases "x = this")
    case True
    with ok' show ?thesis by simp
  next
    case False
    from that dom have okx: "lru_ok w x (L x)"
      using heap_okD(1) [OF H] by simp
    have "set (L x) \<inter> set (L this) = {}"
      using heap_okD(2) [OF H False] .
    with okx fr False have "lru_ok w' x (L x)"
      by (intro lru_ok_other [of w x "L x" w' this "set (L this)"])
    with False show ?thesis by simp
  qed
  have fresh: "w_next_addr w \<notin> set (L x)" for x
    using heap_okD(3) [OF H, of x] by auto
  have 2: "set ((L(this := ns')) o1) \<inter> set ((L(this := ns')) o2) = {}" if "o1 \<noteq> o2" for o1 o2
  proof -
    have "set ns' \<inter> set (L x) = {}" if "x \<noteq> this" for x
      using sub fresh [of x] heap_okD(2) [OF H, of this x] that by auto
    with that heap_okD(2) [OF H that] show ?thesis
      by (auto simp: Int_commute)
  qed
  have 3: "set ((L(this := ns')) x) \<subseteq> {..<w_next_addr w'}" for x
  proof (cases "x = this")
    case True
    from ok' have "set ns' \<subseteq> {..<w_next_addr w'}" by (rule lru_okE)
    with True show ?thesis by simp
  next
    case False
    with heap_okD(3) [OF H, of x] le show ?thesis by auto
  qed
  have 4: "dom (w_objs w') \<subseteq> {..<w_next_oid w'}"
    unfolding dom oid by (rule heap_okD(4) [OF H])
  from 1 2 3 4 show ?thesis
    unfolding heap_ok_def by blast
qed

lemma heap_remove:
  assumes H: "heap_ok w L" and o: "w_objs w this = Some obj"
    and proto: "key \<notin> set Object_prototype_keys"
  shows "\<exists>w'. LRU_remove this key w = Done Undefined w'
      \<and> heap_ok w' (L(this := without_key (w_nodes w) key (L this)))
      \<and> frame w w' this (set (L this))
      \<and> w_timers w' = cancel (timer_at (w_nodes w) `
            {a \<in> set (L this). key_at (w_nodes w) a = key}) (w_timers w)
      \<and> w_next_addr w' = w_next_addr w \<and> w_next_tid w' = w_next_tid w"
proof -
  from o have "this \<in> dom (w_objs w)" by auto
  then have ok: "lru_ok w this (L this)"
    by (rule heap_okD(1) [OF H])
  from LRU_remove_ok [OF ok proto] obtain w' where
    run: "LRU_remove this key w = Done Undefined w'"
    and ok': "lru_ok w' this (without_key (w_nodes w) key (L this))"
    and fr: "frame w w' this (set (L this))"
    and tm: "w_timers w' = cancel (timer_at (w_nodes w) `
            {a \<in> set (L this). key_at (w_nodes w) a = key}) (w_timers w)"
    and same: "w_next_addr w' = w_next_addr w" "w_next_tid w' = w_next_tid w"
    by (elim exE conjE)
  have "set (without_key (w_nodes w) key (L this)) \<subseteq> insert (w_next_addr w) (set (L this))"
    by (auto simp: set_without_key)
  from heap_ok_step [OF H o ok' fr this] run fr tm same show ?thesis
    by (intro exI [of _ w'] conjI)
qed

lemma heap_remove_proto:
  assumes H: "heap_ok w L" and o: "w_objs w this = Some obj"
    and proto: "key \<in> set Object_prototype_keys"
  shows "LRU_remove this key w = Threw TypeError w"
proof -
  from o have "this \<in> dom (w_objs w)" by auto
  then have ok: "lru_ok w this (L this)"
    by (rule heap_okD(1) [OF H])
  from LRU_remove_proto [OF ok proto] show ?thesis .
qed

lemma heap_write:
  assumes H: "heap_ok w L" and o: "w_objs w this = Some obj"
    and limit: "lru_limit obj \<noteq> 0" and proto: "key \<notin> set Object_prototype_keys"
  shows "\<exists>w'. LRU_write this key val timeLimit w = Done Undefined w'
      \<and> heap_ok w' (L(this := written (w_nodes w) (lru_limit obj) key (w_next_addr w) (L this)))
      \<and> frame w w' this (set (L this))
      \<and> w_nodes w' (w_next_addr w) =
           Some \<lparr>n_key = key, n_val = val, n_prev = None,
                 n_next = first_of (evicted (lru_limit obj) (without_key (w_nodes w) key (L this))),
                 n_timeout = Some (w_next_tid w)\<rparr>
      \<and> w_timers w' =
           (cancel (timer_at (w_nodes w) `
              (set (L this) - set (evicted (lru_limit obj) (without_key (w_nodes w) key (L this)))))
              (w_timers w))
           (w_next_tid w \<mapsto> \<lparr>t_owner = this, t_key = key, t_armed = w_now w,
                                t_delay = timeoutTime obj timeLimit\<rparr>)
      \<and> w_next_addr w' = Suc (w_next_addr w) \<and> w_next_tid w' = Suc (w_next_tid w)"
proof -
  from o have "this \<in> dom (w_objs w)" by auto
  then have ok: "lru_ok w this (L this)"
    by (rule heap_okD(1) [OF H])
  let ?ns' = "written (w_nodes w) (lru_limit obj) key (w_next_addr w) (L this)"
  from LRU_write_ok [OF ok o limit proto, of val timeLimit] obtain w' where
    run: "LRU_write this key val timeLimit w = Done Undefined w'"
    and ok': "lru_ok w' this ?ns'"
    and fr: "frame w w' this (set (L this))"
    and rest: "w_nodes w' (w_next_addr w) =
           Some \<lparr>n_key = key, n_val = val, n_prev = None,
                 n_next = first_of (evicted (lru_limit obj) (without_key (w_nodes w) key (L this))),
                 n_timeout = Some (w_next_tid w)\<rparr>"
      "w_timers w' =
           (cancel (timer_at (w_nodes w) `
              (set (L this) - set (evicted (lru_limit obj) (without_key (w_nodes w) key (L this)))))
              (w_timers w))
           (w_next_tid w \<mapsto> \<lparr>t_owner = this, t_key = key, t_armed = w_now w,
                                t_delay = timeoutTime obj timeLimit\<rparr>)"
      "w_next_addr w' = Suc (w_next_addr w)" "w_next_tid w' = Suc (w_next_tid w)"
    by (elim exE conjE)
  have "set ?ns' \<subseteq> insert (w_next_addr w) (set (L this))"
    using set_evicted [of "lru_limit obj" "without_key (w_nodes w) key (L this)"]
    by (auto simp: written_def set_without_key)
  from heap_ok_step [OF H o ok' fr this] run fr rest show ?thesis
    by (intro exI [of _ w'] conjI)
qed

lemma heap_write_proto:
  assumes H: "heap_ok w L" and o: "w_objs w this = Some obj"
    and proto: "key \<in> set Object_prototype_keys"
  shows "LRU_write this key val timeLimit w = Threw TypeError w"
proof -
  from o have "this \<in> dom (w_objs w)" by auto
  then have ok: "lru_ok w this (L this)"
    by (rule heap_okD(1) [OF H])
  show ?thesis
    unfolding LRU_write_parts remove_existing_eq [OF ok] LRU_remove_proto [OF ok proto]
    by simp
qed

section \<open>What can be observed of a well-formed cache\<close>

lemma walk_dll:
  "dll h p ns None \<Longrightarrow> length ns \<le> fuel \<Longrightarrow> walk fuel h (first_of ns) = Some ns"
proof (induction ns arbitrary: fuel p)
  case Nil
  then show ?case by (simp add: first_of_def)
next
  case (Cons a as)
  from Cons.prems(2) obtain fuel' where fuel: "fuel = Suc fuel'" "length as \<le> fuel'"
    by (cases fuel) auto
  from Cons.prems(1) obtain n where n: "h a = Some n" "n_next n = first_of as"
    and d: "dll h (Some a) as None"
    by (auto simp: first_of_def split: option.splits)
  from Cons.IH [OF d fuel(2)] n fuel show ?case
    by (simp add: first_of_def)
qed

lemma distinct_length_bound:
  assumes "distinct ns" and "set ns \<subseteq> {..<n::nat}"
  shows "length ns \<le> n"
proof -
  have "length ns = card (set ns)"
    using assms(1) by (simp add: distinct_card)
  also have "\<dots> \<le> card {..<n}"
    using assms(2) by (intro card_mono) auto
  finally show ?thesis by simp
qed

lemma recency_list_ok:
  assumes "lru_ok w this ns"
  shows "recency_list w this = Some ns"
proof -
  from assms obtain obj where obj: "w_objs w this = Some obj"
    and d: "dll (w_nodes w) None ns None" and dist: "distinct ns"
    and alloc: "set ns \<subseteq> {..<w_next_addr w}"
    and hd: "lru_head obj = first_of ns"
    by (rule lru_okE)
  from distinct_length_bound [OF dist alloc] have "length ns \<le> w_next_addr w" .
  from walk_dll [OF d this] obj hd show ?thesis
    by (simp add: recency_list_def)
qed

lemma index_of_dom: "dom (index_of h ns) = key_at h ` set ns"
proof -
  have "k \<in> dom (index_of h ns) \<longleftrightarrow> k \<in> key_at h ` set ns" for k
    using index_of_None [of h ns k] by (auto simp: dom_def)
  then show ?thesis by blast
qed

lemma index_card_ok:
  assumes "lru_ok w this ns" and "w_objs w this = Some obj"
  shows "card (dom (lru_cache obj)) = length ns" and "lru_length obj = int (length ns)"
proof -
  from assms obtain keys: "distinct (map (key_at (w_nodes w)) ns)"
    and idx: "lru_cache obj = index_of (w_nodes w) ns"
    and len: "lru_length obj = int (length ns)"
    by (auto elim!: lru_okE)
  have "card (dom (lru_cache obj)) = card (set (map (key_at (w_nodes w)) ns))"
    unfolding idx index_of_dom by simp
  also have "\<dots> = length (map (key_at (w_nodes w)) ns)"
    using keys by (rule distinct_card)
  finally show "card (dom (lru_cache obj)) = length ns" by simp
  from len show "lru_length obj = int (length ns)" .
qed

lemma length_without_key: "length (without_key h key ns) \<le> length ns"
  unfolding without_key_def by simp

lemma length_written:
  assumes "int (length ns) \<le> N" and "0 < N"
  shows "int (length (written h N key a ns)) \<le> N"
proof -
  have "int (length (without_key h key ns)) \<le> N"
    using assms(1) length_without_key [of h key ns] by simp
  then have "int (length (evicted N (without_key h key ns))) \<le> N - 1"
    using assms(2) unfolding evicted_def by (auto simp: nat_le_iff)
  then show ?thesis
    unfolding written_def by simp
qed

lemma lru_ok_timers [simp]: "lru_ok (w\<lparr>w_timers := T\<rparr>) this ns = lru_ok w this ns"
  unfolding lru_ok_def by (simp cong: option.case_cong)

lemma lru_ok_now [simp]: "lru_ok (w\<lparr>w_now := t\<rparr>) this ns = lru_ok w this ns"
  unfolding lru_ok_def by (simp cong: option.case_cong)

lemma heap_ok_timers [simp]: "heap_ok (w\<lparr>w_timers := T\<rparr>) L = heap_ok w L"
  unfolding heap_ok_def by simp

lemma heap_ok_now [simp]: "heap_ok (w\<lparr>w_now := t\<rparr>) L = heap_ok w L"
  unfolding heap_ok_def by simp

section \<open>Index and recency list of a cache\<close>

lemma cache_invI:
  "heap_ok w L \<Longrightarrow> w_objs w this = Some obj \<Longrightarrow> lru_class obj = LRU \<Longrightarrow> lru_limit obj = N
   \<Longrightarrow> int (length (L this)) \<le> N \<Longrightarrow> cache_inv w this N"
  unfolding cache_inv_def by blast

lemma cache_inv_timers [simp]: "cache_inv (w\<lparr>w_timers := T\<rparr>) this N = cache_inv w this N"
  unfolding cache_inv_def by simp

lemma cache_inv_now [simp]: "cache_inv (w\<lparr>w_now := t\<rparr>) this N = cache_inv w this N"
  unfolding cache_inv_def by simp

lemma cache_inv_remove:
  assumes inv: "cache_inv w this N"
  shows "cache_inv (world_of (LRU_remove other key w)) this N"
proof -
  from inv obtain L obj where H: "heap_ok w L" and obj: "w_objs w this = Some obj"
    and cls: "lru_class obj = LRU" and lim: "lru_limit obj = N"
    and len: "int (length (L this)) \<le> N"
    unfolding cache_inv_def by blast
  show ?thesis
  proof (cases "w_objs w other")
    case None
    then have "LRU_remove other key w = Threw TypeError w"
      by (simp add: LRU_remove_def)
    with inv show ?thesis by simp
  next
    case (Some oobj)
    show ?thesis
    proof (cases "key \<in> set Object_prototype_keys")
      case True
      from heap_remove_proto [OF H Some True] inv show ?thesis by simp
    next
      case False
      from heap_remove [OF H Some False] obtain w' where
        run: "LRU_remove other key w = Done Undefined w'"
        and H': "heap_ok w' (L(other := without_key (w_nodes w) key (L other)))"
        and fr: "frame w w' other (set (L other))"
        by (elim exE conjE)
      have "cache_inv w' this N"
      proof (cases "other = this")
        case True
        from fr obj obtain obj' where "w_objs w' this = Some obj'"
          "lru_class obj' = lru_class obj" "lru_limit obj' = lru_limit obj"
          unfolding True by (rule frame_obj)
        moreover have "int (length ((L(other := without_key (w_nodes w) key (L other))) this)) \<le> N"
          using len length_without_key [of "w_nodes w" key "L this"] True by simp
        ultimately show ?thesis
          using H' cls lim by (intro cache_invI [OF H']) simp_all
      next
        case False
        with fr obj have "w_objs w' this = Some obj"
          unfolding frame_def by simp
        moreover have "int (length ((L(other := without_key (w_nodes w) key (L other))) this)) \<le> N"
          using len False by simp
        ultimately show ?thesis
          using cls lim by (intro cache_invI [OF H']) simp_all
      qed
      with run show ?thesis by simp
    qed
  qed
qed

lemma cache_inv_write:
  assumes inv: "cache_inv w this N" and pos: "0 < N"
  shows "cache_inv (world_of (LRU_write this key val timeLimit w)) this N"
proof -
  from inv obtain L obj where H: "heap_ok w L" and obj: "w_objs w this = Some obj"
    and cls: "lru_class obj = LRU" and lim: "lru_limit obj = N"
    and len: "int (length (L this)) \<le> N"
    unfolding cache_inv_def by blast
  show ?thesis
  proof (cases "key \<in> set Object_prototype_keys")
    case True
    from heap_write_proto [OF H obj True] inv show ?thesis by simp
  next
    case False
    from pos lim have "lru_limit obj \<noteq> 0" by simp
    from heap_write [OF H obj this False, of val timeLimit] obtain w' where
      run: "LRU_write this key val timeLimit w = Done Undefined w'"
      and H': "heap_ok w' (L(this := written (w_nodes w) (lru_limit obj) key (w_next_addr w) (L this)))"
      and fr: "frame w w' this (set (L this))"
      by (elim exE conjE)
    from fr obj obtain obj' where "w_objs w' this = Some obj'"
      "lru_class obj' = lru_class obj" "lru_limit obj' = lru_limit obj"
      by (rule frame_obj)
    moreover have "int (length ((L(this := written (w_nodes w) (lru_limit obj) key
        (w_next_addr w) (L this))) this)) \<le> N"
      using length_written [OF len pos] lim by simp
    ultimately have "cache_inv w' this N"
      using cls lim by (intro cache_invI [OF H']) simp_all
    with run show ?thesis by simp
  qed
qed

lemma cache_inv_this_write:
  assumes inv: "cache_inv w this N" and pos: "0 < N"
  shows "this_write this key val w = LRU_write this key val None w"
proof -
  from inv obtain obj where "w_objs w this = Some obj" "lru_class obj = LRU"
    unfolding cache_inv_def by blast
  then show ?thesis by (simp add: this_write_def)
qed

lemma cache_inv_read:
  assumes inv: "cache_inv w this N" and pos: "0 < N"
  shows "cache_inv (world_of (LRU_read this key w)) this N"
proof -
  from inv obtain obj where obj: "w_objs w this = Some obj"
    unfolding cache_inv_def by blast
  show ?thesis
  proof (cases "cache_lookup obj key")
    case Missing
    with obj inv show ?thesis by (simp add: LRU_read_def)
  next
    case Inherited
    with obj have "LRU_read this key w = LRU_remove this key w"
      by (simp add: LRU_read_def)
    with cache_inv_remove [OF inv] show ?thesis by simp
  next
    case (OwnNode a)
    show ?thesis
    proof (cases "w_nodes w a")
      case None
      with obj OwnNode inv show ?thesis by (simp add: LRU_read_def)
    next
      case (Some node)
      with obj OwnNode have r: "LRU_read this key w =
          andThen (LRU_remove this key w) (this_write this key (n_val node))"
        by (simp add: LRU_read_def)
      have inv1: "cache_inv (world_of (LRU_remove this key w)) this N"
        by (rule cache_inv_remove [OF inv])
      show ?thesis
      proof (cases "LRU_remove this key w")
        case (Threw e w1)
        with inv1 r show ?thesis by simp
      next
        case (Done v w1)
        with inv1 have i: "cache_inv w1 this N" by simp
        from cache_inv_write [OF i pos, of key "n_val node" None] Done r
        show ?thesis
          by (simp add: cache_inv_this_write [OF i pos])
      qed
    qed
  qed
qed

lemma cache_inv_fire:
  assumes inv: "cache_inv w this N"
  shows "cache_inv (world_of (fire_timer t w)) this N"
proof (cases "w_timers w t")
  case None
  with inv show ?thesis by (simp add: fire_timer_def)
next
  case (Some tm)
  show ?thesis
  proof (cases "w_now w < t_armed tm + t_delay tm")
    case True
    with Some inv show ?thesis by (simp add: fire_timer_def)
  next
    case False
    from inv have "cache_inv (w\<lparr>w_timers := (w_timers w)(t := None)\<rparr>) this N" by simp
    from cache_inv_remove [OF this] Some False show ?thesis
      by (simp add: fire_timer_def)
  qed
qed

lemma cache_inv_step:
  assumes "cache_inv w this N" and "0 < N"
  shows "cache_inv (world_of (step this x w)) this N"
  using assms
  by (cases x)
     (simp_all add: cache_inv_write cache_inv_read cache_inv_remove cache_inv_fire sleep_def)

lemma cache_inv_run:
  assumes "cache_inv w this N" and "0 < N"
  shows "cache_inv (run this ops w) this N"
  using assms by (induction ops arbitrary: w) (simp_all add: cache_inv_step)

lemma heap_ok_new_object:
  assumes H: "heap_ok w L"
    and empty: "lru_head obj = None" "lru_tail obj = None" "lru_length obj = 0"
      "lru_cache obj = Map.empty"
  shows "heap_ok (snd (new_object obj w)) (L(w_next_oid w := []))"
proof -
  let ?new = "w_next_oid w" and ?w' = "snd (new_object obj w)"
  have fields: "w_nodes ?w' = w_nodes w" "w_next_addr ?w' = w_next_addr w"
    "w_objs ?w' = (w_objs w)(?new \<mapsto> obj)" "w_next_oid ?w' = Suc ?new"
    by (simp_all add: new_object_def)
  have new: "?new \<notin> dom (w_objs w)"
    using heap_okD(4) [OF H] by auto
  have 1: "lru_ok ?w' x ((L(?new := [])) x)" if "x \<in> dom (w_objs ?w')" for x
  proof (cases "x = ?new")
    case True
    then show ?thesis
      using empty unfolding lru_ok_def fields
      by (simp add: first_of_def last_of_def index_of_def)
  next
    case False
    with that have "x \<in> dom (w_objs w)" unfolding fields by auto
    from heap_okD(1) [OF H this] have "lru_ok w x (L x)" .
    moreover have "lru_ok ?w' x (L x) = lru_ok w x (L x)"
      unfolding lru_ok_def fields using False by (simp cong: option.case_cong)
    ultimately show ?thesis using False by simp
  qed
  have 2: "set ((L(?new := [])) o1) \<inter> set ((L(?new := [])) o2) = {}" if "o1 \<noteq> o2" for o1 o2
    using heap_okD(2) [OF H that] by simp
  have 3: "set ((L(?new := [])) x) \<subseteq> {..<w_next_addr ?w'}" for x
    using heap_okD(3) [OF H, of x] unfolding fields by simp
  have 4: "dom (w_objs ?w') \<subseteq> {..<w_next_oid ?w'}"
    using heap_okD(4) [OF H] unfolding fields by auto
  from 1 2 3 4 show ?thesis
    unfolding heap_ok_def by blast
qed

lemma heap_ok_empty: "heap_ok empty_world (\<lambda>_. [])"
  unfolding heap_ok_def empty_world_def by simp

lemma new_LRU_inv:
  assumes H: "heap_ok w L" and N: "0 \<le> N"
  shows "\<exists>w'. new_LRU (Some N) timeLimit w = Done (ObjectRef (w_next_oid w)) w'
           \<and> cache_inv w' (w_next_oid w) N"
proof -
  let ?obj = "LRU_fields LRU (Some N) timeLimit"
  have H': "heap_ok (snd (new_object ?obj w)) (L(w_next_oid w := []))"
    by (rule heap_ok_new_object [OF H]) (simp_all add: LRU_fields_def)
  have "cache_inv (snd (new_object ?obj w)) (w_next_oid w) N"
    using N by (intro cache_invI [OF H', of _ ?obj]) (simp_all add: new_object_def LRU_fields_def)
  then show ?thesis
    by (simp add: new_LRU_def new_object_def split_def)
qed

lemma cache_inv_observe:
  assumes "cache_inv w this N"
  shows "\<exists>ns obj. recency_list w this = Some ns \<and> w_objs w this = Some obj
           \<and> card (dom (lru_cache obj)) = length ns \<and> lru_length obj = int (length ns)
           \<and> int (length ns) \<le> N"
proof -
  from assms obtain L obj where H: "heap_ok w L" and obj: "w_objs w this = Some obj"
    and len: "int (length (L this)) \<le> N"
    unfolding cache_inv_def by blast
  from obj have "this \<in> dom (w_objs w)" by auto
  then have ok: "lru_ok w this (L this)"
    by (rule heap_okD(1) [OF H])
  from recency_list_ok [OF ok] index_card_ok [OF ok obj] obj len show ?thesis
    by (intro exI [of _ "L this"] exI [of _ obj]) simp
qed

text \<open>
  The invariant of the index and the recency list holds of the caches of class \<^verbatim>\<open>LRU\<close>.
  For every cache constructed by \<^verbatim>\<open>new LRU(N, timeLimit)\<close> with a positive capacity \<open>N\<close>,
  in any well-formed store, after any finite sequence of \<^verbatim>\<open>write\<close>, \<^verbatim>\<open>read\<close> and \<^verbatim>\<open>remove\<close>
  calls, timers firing (expiry-triggered \<^verbatim>\<open>remove\<close>) and time passing: the walk from
  \<^verbatim>\<open>head\<close> along \<^verbatim>\<open>next\<close> ends, the number of keys in the index equals the number of nodes
  in the recency list (and \<^verbatim>\<open>this.length\<close>), and both are at most \<open>N\<close>.
\<close>

lemma LRU_index_and_recency_list_agree:
  assumes "heap_ok w0 L0" and "0 < N"
  shows "\<exists>w1. new_LRU (Some N) timeLimit w0 = Done (ObjectRef (w_next_oid w0)) w1
     \<and> (\<exists>ns obj. recency_list (run (w_next_oid w0) ops w1) (w_next_oid w0) = Some ns
            \<and> w_objs (run (w_next_oid w0) ops w1) (w_next_oid w0) = Some obj
            \<and> card (dom (lru_cache obj)) = length ns
            \<and> lru_length obj = int (length ns)
            \<and> int (length ns) \<le> N)"
proof -
  from assms(2) have "0 \<le> N" by simp
  from new_LRU_inv [OF assms(1) this, of timeLimit] obtain w1 where
    new: "new_LRU (Some N) timeLimit w0 = Done (ObjectRef (w_next_oid w0)) w1"
    and inv: "cache_inv w1 (w_next_oid w0) N"
    by blast
  from cache_inv_observe [OF cache_inv_run [OF inv assms(2), of ops]] new
  show ?thesis by blast
qed

text \<open>
  The same at the cache of capacity 2 in a fresh program, after the four calls of the
  specification's scenario and the firing of a timer.
\<close>

lemma LRU_index_and_recency_list_agree_example:
  "heap_ok (empty_world :: int world) (\<lambda>_. []) \<and> (0 :: int) < 2
   \<and> (\<exists>ns obj.
         recency_list (run 0 [Write ''k1'' 1 None, Write ''k2'' 2 None, Read ''k1'',
                             Write ''k3'' 3 None, Sleep 1000, Expire 2]
                        capacity_two) 0 = Some ns
         \<and> w_objs (run 0 [Write ''k1'' 1 None, Write ''k2'' 2 None, Read ''k1'',
                          Write ''k3'' 3 None, Sleep 1000, Expire 2]
                     capacity_two) 0 = Some obj
         \<and> card (dom (lru_cache obj)) = length ns
         \<and> lru_length obj = int (length ns)
         \<and> int (length ns) \<le> 2)"
proof -
  let ?ops = "[Write ''k1'' 1 None, Write ''k2'' 2 None, Read ''k1'', Write ''k3'' 3 None,
               Sleep 1000, Expire 2] :: int op list"
  have pos: "(0 :: int) < 2" by simp
  have z: "w_next_oid (empty_world :: int world) = 0"
    by (simp add: empty_world_def)
  from LRU_index_and_recency_list_agree [OF heap_ok_empty pos, of "Some 1000" ?ops]
  obtain w1 :: "int world" where
    new: "new_LRU (Some 2) (Some 1000) (empty_world :: int world) = Done (ObjectRef 0) w1"
    and obs: "\<exists>ns obj. recency_list (run 0 ?ops w1) 0 = Some ns
            \<and> w_objs (run 0 ?ops w1) 0 = Some obj
            \<and> card (dom (lru_cache obj)) = length ns
            \<and> lru_length obj = int (length ns)
            \<and> int (length ns) \<le> 2"
    unfolding z by blast
  have c: "capacity_two = w1"
    unfolding capacity_two_def new by simp
  from obs heap_ok_empty [where ?'a = int] pos show ?thesis
    unfolding c by (intro conjI)
qed

section \<open>Fan-out of a write from the hub\<close>

lemma cached_head:
  assumes ok: "lru_ok w this (a # ns)" and n: "w_nodes w a = Some n"
  shows "cached w this (n_key n) = Some (n_val n)"
proof -
  from ok obtain obj where obj: "w_objs w this = Some obj"
    and idx: "lru_cache obj = index_of (w_nodes w) (a # ns)"
    by (rule lru_okE)
  have "index_of (w_nodes w) (a # ns) (n_key n) = Some a"
    unfolding index_of_def using n by (simp add: key_at_def)
  with obj idx n show ?thesis
    by (simp add: cached_def)
qed

lemma cached_same:
  assumes ok: "lru_ok w x ns" and objs: "w_objs w' x = w_objs w x"
    and nodes: "\<And>b. b \<in> set ns \<Longrightarrow> w_nodes w' b = w_nodes w b"
  shows "cached w' x key = cached w x key"
proof -
  from ok obtain obj where obj: "w_objs w x = Some obj"
    and keys: "distinct (map (key_at (w_nodes w)) ns)"
    and idx: "lru_cache obj = index_of (w_nodes w) ns"
    by (rule lru_okE)
  show ?thesis
  proof (cases "lru_cache obj key")
    case None
    with obj objs show ?thesis by (simp add: cached_def)
  next
    case (Some a)
    with idx keys have "a \<in> set ns" by (simp add: index_of_Some)
    from nodes [OF this] Some obj objs show ?thesis by (simp add: cached_def)
  qed
qed

lemma entries_same:
  assumes ok: "lru_ok w x ns" and ok': "lru_ok w' x ns"
    and nodes: "\<And>b. b \<in> set ns \<Longrightarrow> w_nodes w' b = w_nodes w b"
  shows "entries w' x = entries w x"
proof -
  have "map (entry_at w') ns = map (entry_at w) ns"
    by (rule map_cong [OF refl]) (simp add: entry_at_def nodes)
  then have "those (map (entry_at w') ns) = those (map (entry_at w) ns)"
    by (rule arg_cong)
  then show ?thesis
    unfolding entries_def recency_list_ok [OF ok] recency_list_ok [OF ok'] option.case .
qed

text \<open>One round of the loop of \<^verbatim>\<open>GlobalLRU.write\<close>: the update of one region.\<close>

lemma updateWrite_ok:
  assumes H: "heap_ok w L" and r: "w_objs w r = Some robj"
    and cls: "lru_class robj = CanadaLRU \<or> lru_class robj = USALRU"
    and limit: "lru_limit robj \<noteq> 0" and proto: "key \<notin> set Object_prototype_keys"
  shows "\<exists>w' L'. updateWrite r key val timeLimit w = Done Undefined w'
      \<and> heap_ok w' L' \<and> (\<forall>x. x \<noteq> r \<longrightarrow> L' x = L x)
      \<and> frame w w' r (set (L r))
      \<and> cached w' r key = Some val
      \<and> w_next_addr w' = Suc (w_next_addr w)"
proof -
  let ?L' = "L(r := written (w_nodes w) (lru_limit robj) key (w_next_addr w) (L r))"
  from cls r have u: "updateWrite r key val timeLimit w = LRU_write r key val timeLimit w"
    by (auto simp: updateWrite_def)
  from heap_write [OF H r limit proto, of val timeLimit] obtain w' where
    run: "LRU_write r key val timeLimit w = Done Undefined w'"
    and H': "heap_ok w' ?L'"
    and fr: "frame w w' r (set (L r))"
    and new: "w_nodes w' (w_next_addr w) =
           Some \<lparr>n_key = key, n_val = val, n_prev = None,
                 n_next = first_of (evicted (lru_limit robj) (without_key (w_nodes w) key (L r))),
                 n_timeout = Some (w_next_tid w)\<rparr>"
    and cnt: "w_next_addr w' = Suc (w_next_addr w)"
    by (elim exE conjE)
  from fr r have "r \<in> dom (w_objs w')"
    unfolding frame_def by auto
  from heap_okD(1) [OF H' this] have "lru_ok w' r (w_next_addr w #
      evicted (lru_limit robj) (without_key (w_nodes w) key (L r)))"
    by (simp add: written_def)
  from cached_head [OF this new] have c: "cached w' r key = Some val" by simp
  have "\<forall>x. x \<noteq> r \<longrightarrow> ?L' x = L x" by simp
  with u run H' fr c cnt show ?thesis
    by (intro exI [of _ w'] exI [of _ ?L']) simp
qed

lemma frame_static:
  assumes "frame w w' r A"
  shows "map_option static_fields (w_objs w' x) = map_option static_fields (w_objs w x)"
    and "map_option lru_lrus (w_objs w' x) = map_option lru_lrus (w_objs w x)"
  using assms unfolding frame_def by (cases "x = r"; simp)+

lemma frame_untouched:
  assumes fr: "frame w w' r (set (L r))" and H: "heap_ok w L" and ne: "x \<noteq> r"
  shows "w_objs w' x = w_objs w x" and "b \<in> set (L x) \<Longrightarrow> w_nodes w' b = w_nodes w b"
proof -
  from fr ne show "w_objs w' x = w_objs w x"
    unfolding frame_def by simp
  assume b: "b \<in> set (L x)"
  with heap_okD(2) [OF H ne] have "b \<notin> set (L r)" by auto
  moreover from b heap_okD(3) [OF H, of x] have "b < w_next_addr w" by auto
  ultimately show "w_nodes w' b = w_nodes w b"
    using fr unfolding frame_def by simp
qed

lemma regions_readyD:
  assumes "regions_ready w regs" and "(rid, r) \<in> set regs"
  obtains robj where "w_objs w r = Some robj"
    and "lru_class robj = CanadaLRU \<or> lru_class robj = USALRU" and "lru_limit robj \<noteq> 0"
proof (cases "w_objs w r")
  case None
  with assms show ?thesis unfolding regions_ready_def by fastforce
next
  case (Some robj)
  with assms have "(lru_class robj = CanadaLRU \<or> lru_class robj = USALRU) \<and> lru_limit robj \<noteq> 0"
    unfolding regions_ready_def by fastforce
  with Some show ?thesis by (intro that [of robj]) simp_all
qed

lemma regions_ready_frame:
  assumes ready: "regions_ready w regs" and fr: "frame w w' x A"
  shows "regions_ready w' regs"
proof -
  have "case w_objs w' r of None \<Rightarrow> False
        | Some robj \<Rightarrow> (lru_class robj = CanadaLRU \<or> lru_class robj = USALRU)
                       \<and> lru_limit robj \<noteq> 0" if "(rid, r) \<in> set regs" for rid r
  proof -
    from ready that obtain robj where r: "w_objs w r = Some robj"
      and c: "lru_class robj = CanadaLRU \<or> lru_class robj = USALRU" and l: "lru_limit robj \<noteq> 0"
      by (rule regions_readyD)
    from frame_static(1) [OF fr, of r] r obtain robj' where
      "w_objs w' r = Some robj'" "static_fields robj' = static_fields robj"
      by auto
    with c l show ?thesis by (simp add: static_fields_def)
  qed
  then show ?thesis unfolding regions_ready_def by blast
qed

lemma fan_out_write_ok:
  assumes H: "heap_ok w L"
    and hub: "map_option lru_lrus (w_objs w g) = Some regs"
    and ready: "regions_ready w regs"
    and ks: "set ks \<subseteq> fst ` set regs"
    and proto: "key \<notin> set Object_prototype_keys"
  shows "\<exists>w' L'. fan_out_write g ks key val timeLimit A w = Done Undefined w'
      \<and> heap_ok w' L'
      \<and> (\<forall>k \<in> set ks. Some k \<noteq> A \<longrightarrow>
            (\<exists>r. map_of regs k = Some r \<and> cached w' r key = Some val))
      \<and> (\<forall>x. (\<forall>k \<in> set ks. Some k \<noteq> A \<longrightarrow> map_of regs k \<noteq> Some x) \<longrightarrow>
            w_objs w' x = w_objs w x \<and> L' x = L x
            \<and> (\<forall>b \<in> set (L x). w_nodes w' b = w_nodes w b))
      \<and> w_next_addr w' = w_next_addr w + length (filter (\<lambda>k. Some k \<noteq> A) ks)"
  using H hub ready ks
proof (induction ks arbitrary: w L)
  case Nil
  then show ?case
    by (intro exI [of _ w] exI [of _ L]) simp
next
  case (Cons k ks)
  note H = Cons.prems(1) and hub = Cons.prems(2) and ready = Cons.prems(3)
  from Cons.prems(4) have kin: "k \<in> fst ` set regs" and ks: "set ks \<subseteq> fst ` set regs"
    by simp_all
  show ?case
  proof (cases "Some k = A")
    case True
    from Cons.IH [OF H hub ready ks] obtain w' L' where
      run: "fan_out_write g ks key val timeLimit A w = Done Undefined w'"
      and rest: "heap_ok w' L'"
        "\<forall>k \<in> set ks. Some k \<noteq> A \<longrightarrow>
            (\<exists>r. map_of regs k = Some r \<and> cached w' r key = Some val)"
        "\<forall>x. (\<forall>k \<in> set ks. Some k \<noteq> A \<longrightarrow> map_of regs k \<noteq> Some x) \<longrightarrow>
            w_objs w' x = w_objs w x \<and> L' x = L x
            \<and> (\<forall>b \<in> set (L x). w_nodes w' b = w_nodes w b)"
        "w_next_addr w' = w_next_addr w + length (filter (\<lambda>k. Some k \<noteq> A) ks)"
      by (elim exE conjE)
    from True run have "fan_out_write g (k # ks) key val timeLimit A w = Done Undefined w'"
      by simp
    with rest True show ?thesis
      by (intro exI [of _ w'] exI [of _ L']) simp
  next
    case False
    from kin obtain r where "map_of regs k = Some r"
      by (metis weak_map_of_SomeI map_of_eq_None_iff not_None_eq)
    then have m: "map_of regs k = Some r" and kr: "(k, r) \<in> set regs"
      by (simp_all add: map_of_SomeD)
    from ready kr obtain robj where r: "w_objs w r = Some robj"
      and c: "lru_class robj = CanadaLRU \<or> lru_class robj = USALRU" and l: "lru_limit robj \<noteq> 0"
      by (rule regions_readyD)
    from updateWrite_ok [OF H r c l proto, of val timeLimit] obtain w1 L1 where
      run1: "updateWrite r key val timeLimit w = Done Undefined w1"
      and H1: "heap_ok w1 L1" and L1: "\<forall>x. x \<noteq> r \<longrightarrow> L1 x = L x"
      and fr: "frame w w1 r (set (L r))"
      and c1: "cached w1 r key = Some val"
      and n1: "w_next_addr w1 = Suc (w_next_addr w)"
      by (elim exE conjE)
    have hub1: "map_option lru_lrus (w_objs w1 g) = Some regs"
      using frame_static(2) [OF fr, of g] hub by simp
    have ready1: "regions_ready w1 regs"
      by (rule regions_ready_frame [OF ready fr])
    from Cons.IH [OF H1 hub1 ready1 ks] obtain w' L' where
      run: "fan_out_write g ks key val timeLimit A w1 = Done Undefined w'"
      and H': "heap_ok w' L'"
      and reached: "\<forall>k \<in> set ks. Some k \<noteq> A \<longrightarrow>
            (\<exists>r. map_of regs k = Some r \<and> cached w' r key = Some val)"
      and kept: "\<forall>x. (\<forall>k \<in> set ks. Some k \<noteq> A \<longrightarrow> map_of regs k \<noteq> Some x) \<longrightarrow>
            w_objs w' x = w_objs w1 x \<and> L' x = L1 x
            \<and> (\<forall>b \<in> set (L1 x). w_nodes w' b = w_nodes w1 b)"
      and cnt: "w_next_addr w' = w_next_addr w1 + length (filter (\<lambda>k. Some k \<noteq> A) ks)"
      by (elim exE conjE)
    from hub obtain gobj where g: "w_objs w g = Some gobj" "lru_lrus gobj = regs"
      by auto
    have run': "fan_out_write g (k # ks) key val timeLimit A w = Done Undefined w'"
      using False g m run1 run by simp
    have here: "cached w' r key = Some val"
    proof (cases "\<forall>k \<in> set ks. Some k \<noteq> A \<longrightarrow> map_of regs k \<noteq> Some r")
      case True
      with kept have o: "w_objs w' r = w_objs w1 r"
        and nn: "\<And>b. b \<in> set (L1 r) \<Longrightarrow> w_nodes w' b = w_nodes w1 b"
        by simp_all
      from fr r have "r \<in> dom (w_objs w1)"
        unfolding frame_def by auto
      from heap_okD(1) [OF H1 this] have "lru_ok w1 r (L1 r)" .
      from cached_same [OF this o nn] c1 show ?thesis by simp
    next
      case False
      then obtain k' where "k' \<in> set ks" "Some k' \<noteq> A" "map_of regs k' = Some r" by blast
      with reached show ?thesis by fastforce
    qed
    have reached': "\<forall>k' \<in> set (k # ks). Some k' \<noteq> A \<longrightarrow>
            (\<exists>r. map_of regs k' = Some r \<and> cached w' r key = Some val)"
      using reached here m by simp
    have kept': "w_objs w' x = w_objs w x \<and> L' x = L x
            \<and> (\<forall>b \<in> set (L x). w_nodes w' b = w_nodes w b)"
      if x: "\<forall>k' \<in> set (k # ks). Some k' \<noteq> A \<longrightarrow> map_of regs k' \<noteq> Some x" for x
    proof -
      from x False m have ne: "x \<noteq> r" by auto
      from x have "\<forall>k \<in> set ks. Some k \<noteq> A \<longrightarrow> map_of regs k \<noteq> Some x" by simp
      with kept have 1: "w_objs w' x = w_objs w1 x" "L' x = L1 x"
        "\<And>b. b \<in> set (L1 x) \<Longrightarrow> w_nodes w' b = w_nodes w1 b"
        by simp_all
      from L1 ne have 2: "L1 x = L x" by simp
      from frame_untouched [OF fr H ne] 1 2 show ?thesis by simp
    qed
    have cnt': "w_next_addr w' = w_next_addr w + length (filter (\<lambda>k. Some k \<noteq> A) (k # ks))"
      using cnt n1 False by simp
    from run' H' reached' kept' cnt' show ?thesis
      by (intro exI [of _ w'] exI [of _ L'] conjI allI impI) blast+
  qed
qed

lemma distinct_snd_unique:
  assumes "distinct (map snd xs)" and "(k, r) \<in> set xs" and "(k', r) \<in> set xs"
  shows "k = k'"
proof -
  from assms(1) have "inj_on snd (set xs)" by (simp add: distinct_map)
  from inj_onD [OF this _ assms(2,3)] show ?thesis by simp
qed

lemma length_filter_fst:
  "length (filter P (map fst xs)) = length (filter (\<lambda>(k, r). P k) xs)"
  by (induction xs) auto

text \<open>
  C5. Let the store be well formed, let the hub \<open>g\<close> (an object of class \<^verbatim>\<open>GlobalLRU\<close> with a
  limit other than 0) hold a registry in which every cache is a region with a limit other
  than 0 and is registered once, and let the key not be a property of \<^verbatim>\<open>Object.prototype\<close>.
  Then \<^verbatim>\<open>GlobalLRU.write(key, val, timeLimit, A)\<close> completes, and afterwards the hub's own
  store and every registered region other than \<open>A\<close> hold \<open>key -> val\<close>; region \<open>A\<close> is
  untouched (its object and its entries are as before); the update of a region is the
  plain \<^verbatim>\<open>LRU.write\<close>, which calls no hub; and exactly one node was created for the hub and
  one for each region other than \<open>A\<close>, so no store was written a second time.
\<close>

theorem notify_write_fans_out:
  assumes H: "heap_ok w L"
    and hub: "w_objs w g = Some gobj" and cls: "lru_class gobj = GlobalLRU"
    and lim: "lru_limit gobj \<noteq> 0"
    and ready: "regions_ready w (lru_lrus gobj)"
    and dk: "distinct (map fst (lru_lrus gobj))"
    and dr: "distinct (map snd (lru_lrus gobj))"
    and proto: "key \<notin> set Object_prototype_keys"
  shows "\<exists>w'. GlobalLRU_write g key val timeLimit (Some A) w = Done Undefined w'
     \<and> cached w' g key = Some val
     \<and> (\<forall>(rid, r) \<in> set (lru_lrus gobj).
           updateWrite r key val timeLimit w = LRU_write r key val timeLimit w
           \<and> (if rid \<noteq> A then cached w' r key = Some val
              else w_objs w' r = w_objs w r \<and> entries w' r = entries w r))
     \<and> w_next_addr w' =
         w_next_addr w + 1 + length (filter (\<lambda>(rid, r). rid \<noteq> A) (lru_lrus gobj))"
proof -
  let ?regs = "lru_lrus gobj"
  let ?L1 = "L(g := written (w_nodes w) (lru_limit gobj) key (w_next_addr w) (L g))"
  \<comment> \<open>the hub's own store\<close>
  from heap_write [OF H hub lim proto, of val timeLimit] obtain w1 where
    run1: "LRU_write g key val timeLimit w = Done Undefined w1"
    and H1: "heap_ok w1 ?L1"
    and fr: "frame w w1 g (set (L g))"
    and new: "w_nodes w1 (w_next_addr w) =
           Some \<lparr>n_key = key, n_val = val, n_prev = None,
                 n_next = first_of (evicted (lru_limit gobj) (without_key (w_nodes w) key (L g))),
                 n_timeout = Some (w_next_tid w)\<rparr>"
    and n1: "w_next_addr w1 = Suc (w_next_addr w)"
    by (elim exE conjE)
  from fr hub obtain gobj1 where g1: "w_objs w1 g = Some gobj1" "lru_lrus gobj1 = ?regs"
    by (rule frame_obj)
  then have gdom: "g \<in> dom (w_objs w1)" by auto
  from heap_okD(1) [OF H1 gdom] have okg: "lru_ok w1 g (?L1 g)" .
  then have "lru_ok w1 g (w_next_addr w #
      evicted (lru_limit gobj) (without_key (w_nodes w) key (L g)))"
    by (simp add: written_def)
  from cached_head [OF this new] have cg: "cached w1 g key = Some val" by simp
  \<comment> \<open>the regions\<close>
  have hub1: "map_option lru_lrus (w_objs w1 g) = Some ?regs"
    using g1 by simp
  have ready1: "regions_ready w1 ?regs"
    by (rule regions_ready_frame [OF ready fr])
  from fan_out_write_ok [OF H1 hub1 ready1 _ proto, of "map fst ?regs" val timeLimit "Some A"]
  obtain w' L' where
    run2: "fan_out_write g (map fst ?regs) key val timeLimit (Some A) w1 = Done Undefined w'"
    and H': "heap_ok w' L'"
    and reached: "\<forall>k \<in> set (map fst ?regs). Some k \<noteq> Some A \<longrightarrow>
            (\<exists>r. map_of ?regs k = Some r \<and> cached w' r key = Some val)"
    and kept: "\<forall>x. (\<forall>k \<in> set (map fst ?regs). Some k \<noteq> Some A \<longrightarrow> map_of ?regs k \<noteq> Some x) \<longrightarrow>
            w_objs w' x = w_objs w1 x \<and> L' x = ?L1 x
            \<and> (\<forall>b \<in> set (?L1 x). w_nodes w' b = w_nodes w1 b)"
    and cnt: "w_next_addr w' =
        w_next_addr w1 + length (filter (\<lambda>k. Some k \<noteq> Some A) (map fst ?regs))"
    by auto
  have run: "GlobalLRU_write g key val timeLimit (Some A) w = Done Undefined w'"
    unfolding GlobalLRU_write_def run1 using g1 run2 by simp
  \<comment> \<open>the hub is not one of its regions\<close>
  have not_hub: "r \<noteq> g" if "(rid, r) \<in> set ?regs" for rid r
  proof
    assume "r = g"
    with ready that hub obtain "lru_class gobj = CanadaLRU \<or> lru_class gobj = USALRU"
      by (auto elim: regions_readyD)
    with cls show False by simp
  qed
  have "\<forall>k \<in> set (map fst ?regs). Some k \<noteq> Some A \<longrightarrow> map_of ?regs k \<noteq> Some g"
    using not_hub by (auto dest: map_of_SomeD)
  from kept [THEN spec, THEN mp, OF this]
  have "w_objs w' g = w_objs w1 g" "\<And>b. b \<in> set (?L1 g) \<Longrightarrow> w_nodes w' b = w_nodes w1 b"
    by blast+
  from cached_same [OF okg this] cg have 1: "cached w' g key = Some val" by simp
  have 2: "updateWrite r key val timeLimit w = LRU_write r key val timeLimit w
           \<and> (if rid \<noteq> A then cached w' r key = Some val
              else w_objs w' r = w_objs w r \<and> entries w' r = entries w r)"
    if reg: "(rid, r) \<in> set ?regs" for rid r
  proof -
    from ready reg obtain robj where r: "w_objs w r = Some robj"
      and c: "lru_class robj = CanadaLRU \<or> lru_class robj = USALRU"
      by (rule regions_readyD)
    then have u: "updateWrite r key val timeLimit w = LRU_write r key val timeLimit w"
      by (auto simp: updateWrite_def)
    from dk reg have m: "map_of ?regs rid = Some r"
      by (rule map_of_is_SomeI)
    have ne: "r \<noteq> g" using not_hub [OF reg] .
    show ?thesis
    proof (cases "rid = A")
      case False
      from reg have "rid \<in> set (map fst ?regs)" by force
      with reached False m have "cached w' r key = Some val" by fastforce
      with u False show ?thesis by simp
    next
      case True
      have "map_of ?regs k \<noteq> Some r" if "Some k \<noteq> Some A" for k
      proof
        assume "map_of ?regs k = Some r"
        then have "(k, r) \<in> set ?regs" by (rule map_of_SomeD)
        from distinct_snd_unique [OF dr this reg] that True show False by simp
      qed
      then have "\<forall>k \<in> set (map fst ?regs). Some k \<noteq> Some A \<longrightarrow> map_of ?regs k \<noteq> Some r"
        by blast
      from kept [THEN spec, THEN mp, OF this]
      have o: "w_objs w' r = w_objs w1 r" and l: "L' r = ?L1 r"
        and nn: "\<And>b. b \<in> set (?L1 r) \<Longrightarrow> w_nodes w' b = w_nodes w1 b"
        by blast+
      from frame_untouched [OF fr H ne] have o1: "w_objs w1 r = w_objs w r"
        and nn1: "\<And>b. b \<in> set (L r) \<Longrightarrow> w_nodes w1 b = w_nodes w b"
        by simp_all
      from r have "r \<in> dom (w_objs w)" by auto
      from heap_okD(1) [OF H this] have ok: "lru_ok w r (L r)" .
      from o o1 r have "r \<in> dom (w_objs w')" by auto
      from heap_okD(1) [OF H' this] l ne have ok': "lru_ok w' r (L r)" by simp
      have "w_nodes w' b = w_nodes w b" if "b \<in> set (L r)" for b
        using nn [of b] nn1 [OF that] that ne by simp
      from entries_same [OF ok ok' this] o o1 u True show ?thesis by simp
    qed
  qed
  have 3: "w_next_addr w' = w_next_addr w + 1 + length (filter (\<lambda>(rid, r). rid \<noteq> A) ?regs)"
    unfolding cnt n1 length_filter_fst by simp
  from run 1 2 3 show ?thesis
    by (intro exI [of _ w'] conjI ballI) auto
qed

lemma geo_demo_world:
  "geo_demo =
   \<lparr>w_nodes = Map.empty, w_next_addr = 0,
     w_objs = [0 \<mapsto> \<lparr>lru_class = GlobalLRU, lru_length = 0, lru_limit = 10,
                       lru_timeLimit = 60000, lru_head = None, lru_tail = None,
                       lru_cache = Map.empty, lru_lruKey = None, lru_globalLRU = None,
                       lru_lrus = [(''canada'', 1), (''usa'', 2)]\<rparr>,
               1 \<mapsto> \<lparr>lru_class = CanadaLRU, lru_length = 0, lru_limit = 10,
                       lru_timeLimit = 60000, lru_head = None, lru_tail = None,
                       lru_cache = Map.empty, lru_lruKey = Some ''canada'',
                       lru_globalLRU = Some 0, lru_lrus = []\<rparr>,
               2 \<mapsto> \<lparr>lru_class = USALRU, lru_length = 0, lru_limit = 10,
                       lru_timeLimit = 60000, lru_head = None, lru_tail = None,
                       lru_cache = Map.empty, lru_lruKey = Some ''usa'',
                       lru_globalLRU = Some 0, lru_lrus = []\<rparr>],
     w_next_oid = 3, w_timers = Map.empty, w_next_tid = 0, w_now = 0\<rparr>"
  by (simp add: geo_demo_def new_GlobalLRU_def new_CanadaLRU_def new_USALRU_def addLRU_def
      new_object_def LRU_fields_def upd_obj_def empty_world_def fun_upd_twist
      numeral_2_eq_2 numeral_3_eq_3 registry_defs)

lemma geo_demo_heap_ok: "heap_ok geo_demo (\<lambda>_. [])"
  unfolding heap_ok_def lru_ok_def geo_demo_world
  by (auto simp: first_of_def last_of_def index_of_def)

lemma geo_demo_ready: "regions_ready geo_demo [(''canada'', 1), (''usa'', 2)]"
  unfolding regions_ready_def geo_demo_world by simp

text \<open>
  The theorem in \<^verbatim>\<open>geoLRUDemo\<close>: the hub is notified of \<^verbatim>\<open>write("a", 111)\<close> by \<^verbatim>\<open>canada\<close>.
  The hub and \<^verbatim>\<open>usa\<close> then hold the entry, \<^verbatim>\<open>canada\<close> is untouched, and two nodes were
  created.
\<close>

theorem notify_write_fans_out_witness:
  "heap_ok geo_demo (\<lambda>_. [])
   \<and> regions_ready geo_demo [(''canada'', 1), (''usa'', 2)]
   \<and> value_of (GlobalLRU_write 0 ''a'' 111 None (Some ''canada'') geo_demo) = Some Undefined
   \<and> cached (world_of (GlobalLRU_write 0 ''a'' 111 None (Some ''canada'') geo_demo)) 0 ''a''
       = Some 111
   \<and> cached (world_of (GlobalLRU_write 0 ''a'' 111 None (Some ''canada'') geo_demo)) 2 ''a''
       = Some 111
   \<and> w_objs (world_of (GlobalLRU_write 0 ''a'' 111 None (Some ''canada'') geo_demo)) 1
       = w_objs geo_demo 1
   \<and> entries (world_of (GlobalLRU_write 0 ''a'' 111 None (Some ''canada'') geo_demo)) 1
       = entries geo_demo 1
   \<and> w_next_addr (world_of (GlobalLRU_write 0 ''a'' 111 None (Some ''canada'') geo_demo))
       = w_next_addr geo_demo + 2"
proof -
  let ?hub = "\<lparr>lru_class = GlobalLRU, lru_length = 0, lru_limit = 10,
                lru_timeLimit = 60000, lru_head = None, lru_tail = None,
                lru_cache = Map.empty, lru_lruKey = None, lru_globalLRU = None,
                lru_lrus = [(''canada'', 1), (''usa'', 2)]\<rparr>"
  have hub: "w_objs geo_demo 0 = Some ?hub"
    unfolding geo_demo_world by simp
  have ready: "regions_ready geo_demo (lru_lrus ?hub)"
    using geo_demo_ready by simp
  have proto: "''a'' \<notin> set Object_prototype_keys"
    by (simp add: Object_prototype_keys_def)
  from notify_write_fans_out [OF geo_demo_heap_ok hub _ _ ready _ _ proto,
      of 111 None "''canada''"]
  obtain w' where
    run: "GlobalLRU_write 0 ''a'' 111 None (Some ''canada'') geo_demo = Done Undefined w'"
    and facts: "cached w' 0 ''a'' = Some 111"
      "cached w' 2 ''a'' = Some 111"
      "w_objs w' 1 = w_objs geo_demo 1" "entries w' 1 = entries geo_demo 1"
      "w_next_addr w' = w_next_addr geo_demo + 2"
    by auto
  from geo_demo_heap_ok geo_demo_ready facts show ?thesis
    unfolding run by simp
qed

section \<open>Timers of a well-formed store\<close>

lemma timers_okD:
  assumes "timers_ok w this ns"
  shows "a \<in> set ns \<Longrightarrow> \<exists>t tm. timer_at (w_nodes w) a = Some t \<and> w_timers w t = Some tm
            \<and> t_owner tm = this \<and> t_key tm = key_at (w_nodes w) a"
    and "distinct (map (timer_at (w_nodes w)) ns)"
    and "w_timers w t = Some tm \<Longrightarrow> t_owner tm = this \<Longrightarrow> Some t \<in> timer_at (w_nodes w) ` set ns"
  using assms unfolding timers_ok_def by blast+

lemma timers_okI:
  assumes "\<And>a. a \<in> set ns \<Longrightarrow> \<exists>t tm. timer_at (w_nodes w) a = Some t \<and> w_timers w t = Some tm
            \<and> t_owner tm = this \<and> t_key tm = key_at (w_nodes w) a"
    and "distinct (map (timer_at (w_nodes w)) ns)"
    and "\<And>t tm. w_timers w t = Some tm \<Longrightarrow> t_owner tm = this
            \<Longrightarrow> Some t \<in> timer_at (w_nodes w) ` set ns"
  shows "timers_ok w this ns"
  using assms unfolding timers_ok_def by blast

lemma timers_inj:
  assumes "timers_ok w this ns"
  shows "inj_on (timer_at (w_nodes w)) (set ns)"
  using timers_okD(2) [OF assms] by (simp add: distinct_map)

text \<open>Cancelling the timers of the nodes that leave the list keeps the rest matched.\<close>

lemma timers_ok_cancel:
  assumes T: "timers_ok w this ns"
    and pay: "\<And>b. b \<in> set ns \<Longrightarrow> payload (w_nodes w') b = payload (w_nodes w) b"
    and sub: "set ns' \<subseteq> set ns" and dist: "distinct ns'"
    and tm: "w_timers w' = cancel (timer_at (w_nodes w) ` (set ns - set ns')) (w_timers w)"
  shows "timers_ok w' this ns'"
proof (rule timers_okI)
  let ?h = "w_nodes w" and ?h' = "w_nodes w'"
  have ta: "timer_at ?h' b = timer_at ?h b" and ka: "key_at ?h' b = key_at ?h b"
    if "b \<in> set ns" for b
    using pay [OF that] by (simp_all add: timer_at_payload [of ?h' b ?h] key_at_payload [of ?h' b ?h])
  note inj = timers_inj [OF T]
  have keep: "Some t \<notin> timer_at ?h ` (set ns - set ns')"
    if "a \<in> set ns'" "timer_at ?h a = Some t" for a t
  proof
    assume "Some t \<in> timer_at ?h ` (set ns - set ns')"
    then obtain b where b: "b \<in> set ns" "b \<notin> set ns'" "timer_at ?h b = Some t" by auto
    from that sub have "a \<in> set ns" by auto
    from inj_onD [OF inj _ this b(1)] that(2) b(3) have "a = b" by simp
    with that(1) b(2) show False by simp
  qed
  show "\<exists>t tm. timer_at ?h' a = Some t \<and> w_timers w' t = Some tm
            \<and> t_owner tm = this \<and> t_key tm = key_at ?h' a" if a: "a \<in> set ns'" for a
  proof -
    from a sub have a': "a \<in> set ns" by auto
    from timers_okD(1) [OF T a'] obtain t tm where
      t: "timer_at ?h a = Some t" "w_timers w t = Some tm" "t_owner tm = this"
         "t_key tm = key_at ?h a"
      by blast
    from keep [OF a t(1)] t(2) have "w_timers w' t = Some tm"
      unfolding tm cancel_def by simp
    with t ta [OF a'] ka [OF a'] show ?thesis by simp
  qed
  have eq: "map (timer_at ?h') ns' = map (timer_at ?h) ns'"
    using sub by (intro map_cong [OF refl] ta) auto
  have "inj_on (timer_at ?h) (set ns')"
    using inj sub by (rule inj_on_subset)
  with dist show "distinct (map (timer_at ?h') ns')"
    unfolding eq by (simp add: distinct_map)
  show "Some t \<in> timer_at ?h' ` set ns'" if "w_timers w' t = Some tm" "t_owner tm = this" for t tm
  proof -
    from that(1) have old: "w_timers w t = Some tm"
      and nc: "Some t \<notin> timer_at ?h ` (set ns - set ns')"
      unfolding tm cancel_def by (auto split: if_splits)
    from timers_okD(3) [OF T old that(2)] obtain b where
      b: "b \<in> set ns" "timer_at ?h b = Some t" by auto
    with nc have "b \<in> set ns'" by force
    with b ta [OF b(1)] show ?thesis by force
  qed
qed

text \<open>The same, with a new node in front that holds a newly armed timer.\<close>

lemma timers_ok_arm:
  assumes T: "timers_ok w this ns"
    and pay: "\<And>b. b \<in> set ns \<Longrightarrow> payload (w_nodes w') b = payload (w_nodes w) b"
    and sub: "set ns' \<subseteq> set ns" and dist: "distinct ns'"
    and fresh: "w_timers w t' = None"
    and node: "timer_at (w_nodes w') a' = Some t'" "key_at (w_nodes w') a' = key"
    and new: "a' \<notin> set ns"
    and tm: "w_timers w' = (cancel (timer_at (w_nodes w) ` (set ns - set ns')) (w_timers w))
                           (t' \<mapsto> tm')"
    and own: "t_owner tm' = this" "t_key tm' = key"
  shows "timers_ok w' this (a' # ns')"
proof -
  let ?h = "w_nodes w" and ?h' = "w_nodes w'"
  let ?w1 = "w'\<lparr>w_timers := cancel (timer_at ?h ` (set ns - set ns')) (w_timers w)\<rparr>"
  have T1: "timers_ok ?w1 this ns'"
    by (rule timers_ok_cancel [OF T _ sub dist]) (simp_all add: pay)
  have pending: "w_timers ?w1 t = Some tm \<Longrightarrow> t \<noteq> t'" for t tm
    using fresh unfolding cancel_def by (auto split: if_splits)
  show ?thesis
  proof (rule timers_okI)
    show "\<exists>t tm. timer_at ?h' a = Some t \<and> w_timers w' t = Some tm
            \<and> t_owner tm = this \<and> t_key tm = key_at ?h' a" if "a \<in> set (a' # ns')" for a
    proof (cases "a = a'")
      case True
      with node own show ?thesis unfolding tm by simp
    next
      case False
      with that have "a \<in> set ns'" by simp
      from timers_okD(1) [OF T1 this] obtain t tm0 where
        t: "timer_at ?h' a = Some t" "w_timers ?w1 t = Some tm0" "t_owner tm0 = this"
           "t_key tm0 = key_at ?h' a"
        by auto
      from pending [OF t(2)] t show ?thesis unfolding tm by simp
    qed
    have "Some t' \<notin> timer_at ?h' ` set ns'"
    proof
      assume "Some t' \<in> timer_at ?h' ` set ns'"
      then obtain b where "b \<in> set ns'" "timer_at ?h' b = Some t'" by force
      with timers_okD(1) [OF T1 this(1)] pending show False by fastforce
    qed
    with timers_okD(2) [OF T1] node(1) show "distinct (map (timer_at ?h') (a' # ns'))"
      by simp
    show "Some t \<in> timer_at ?h' ` set (a' # ns')"
      if "w_timers w' t = Some tm" "t_owner tm = this" for t tm
    proof (cases "t = t'")
      case True
      with node(1) show ?thesis by force
    next
      case False
      with that(1) have "w_timers ?w1 t = Some tm" unfolding tm by simp
      from timers_okD(3) [OF T1 this that(2)] show ?thesis by auto
    qed
  qed
qed

text \<open>The timers of another cache are not affected.\<close>

lemma timers_ok_other:
  assumes T: "timers_ok w x ns"
    and nodes: "\<And>b. b \<in> set ns \<Longrightarrow> w_nodes w' b = w_nodes w b"
    and foreign: "\<And>t tm. t_owner tm = x \<Longrightarrow> (w_timers w' t = Some tm) = (w_timers w t = Some tm)"
  shows "timers_ok w' x ns"
proof (rule timers_okI)
  have ta: "timer_at (w_nodes w') b = timer_at (w_nodes w) b"
    and ka: "key_at (w_nodes w') b = key_at (w_nodes w) b" if "b \<in> set ns" for b
    using nodes [OF that] by (simp_all add: timer_at_def key_at_def)
  show "\<exists>t tm. timer_at (w_nodes w') a = Some t \<and> w_timers w' t = Some tm
            \<and> t_owner tm = x \<and> t_key tm = key_at (w_nodes w') a" if a: "a \<in> set ns" for a
  proof -
    from timers_okD(1) [OF T a] obtain t tm where
      t: "timer_at (w_nodes w) a = Some t" "w_timers w t = Some tm" "t_owner tm = x"
         "t_key tm = key_at (w_nodes w) a"
      by blast
    with foreign [OF t(3), of t] ta [OF a] ka [OF a] show ?thesis by simp
  qed
  have eq: "map (timer_at (w_nodes w')) ns = map (timer_at (w_nodes w)) ns"
    by (intro map_cong [OF refl] ta)
  from timers_okD(2) [OF T] show "distinct (map (timer_at (w_nodes w')) ns)"
    unfolding eq .
  show "Some t \<in> timer_at (w_nodes w') ` set ns" if "w_timers w' t = Some tm" "t_owner tm = x" for t tm
  proof -
    from that foreign [OF that(2), of t] have "w_timers w t = Some tm" by simp
    from timers_okD(3) [OF T this that(2)] obtain b where
      "b \<in> set ns" "timer_at (w_nodes w) b = Some t" by auto
    with ta [of b] show ?thesis by force
  qed
qed

lemma world_okD:
  assumes "world_ok w L"
  shows "heap_ok w L"
    and "this \<in> dom (w_objs w) \<Longrightarrow> timers_ok w this (L this)"
    and "dom (w_timers w) \<subseteq> {..<w_next_tid w}"
    and "w_timers w t = Some tm \<Longrightarrow> t_owner tm < w_next_oid w"
  using assms unfolding world_ok_def by blast+

lemma world_ok_fresh_timer:
  assumes "world_ok w L"
  shows "w_timers w (w_next_tid w) = None"
  using world_okD(3) [OF assms] by (auto simp: dom_def)

lemma world_ok_pending:
  assumes "world_ok w L" and "w_timers w t = Some tm"
  shows "t < w_next_tid w"
proof -
  from assms(2) have "t \<in> dom (w_timers w)" by (rule domI)
  with world_okD(3) [OF assms(1)] show ?thesis by auto
qed

lemma cancel_pending: "cancel S T t = Some tm \<Longrightarrow> T t = Some tm"
  unfolding cancel_def by (simp split: if_splits)

lemma cancel_foreign:
  assumes T: "timers_ok w this ns" and S: "S \<subseteq> timer_at (w_nodes w) ` set ns"
    and x: "t_owner tm \<noteq> this"
  shows "(cancel S (w_timers w) t = Some tm) = (w_timers w t = Some tm)"
proof (cases "Some t \<in> S")
  case False
  then show ?thesis unfolding cancel_def by simp
next
  case True
  with S obtain b where b: "b \<in> set ns" "timer_at (w_nodes w) b = Some t" by force
  from timers_okD(1) [OF T b(1)] b(2) obtain tm0 where
    "w_timers w t = Some tm0" "t_owner tm0 = this" by auto
  with x True show ?thesis unfolding cancel_def by auto
qed

lemma world_ok_step:
  assumes W: "world_ok w L" and o: "w_objs w this = Some obj"
    and H': "heap_ok w' (L(this := ns'))"
    and fr: "frame w w' this (set (L this))"
    and T': "timers_ok w' this ns'"
    and foreign: "\<And>t tm. t_owner tm \<noteq> this
                    \<Longrightarrow> (w_timers w' t = Some tm) = (w_timers w t = Some tm)"
    and dom': "dom (w_timers w') \<subseteq> {..<w_next_tid w'}"
  shows "world_ok w' (L(this := ns'))"
proof -
  note H = world_okD(1) [OF W]
  have dom: "dom (w_objs w') = dom (w_objs w)" and oid: "w_next_oid w' = w_next_oid w"
    using fr unfolding frame_def by simp_all
  have 1: "timers_ok w' x ((L(this := ns')) x)" if x: "x \<in> dom (w_objs w')" for x
  proof (cases "x = this")
    case True
    with T' show ?thesis by simp
  next
    case False
    from x dom have "timers_ok w x (L x)"
      using world_okD(2) [OF W] by simp
    moreover have "w_nodes w' b = w_nodes w b" if "b \<in> set (L x)" for b
      using frame_untouched(2) [OF fr H False that] .
    moreover have "(w_timers w' t = Some tm) = (w_timers w t = Some tm)" if "t_owner tm = x" for t tm
      using foreign [of tm t] that False by simp
    ultimately have "timers_ok w' x (L x)"
      by (rule timers_ok_other)
    with False show ?thesis by simp
  qed
  have 2: "t_owner tm < w_next_oid w'" if t: "w_timers w' t = Some tm" for t tm
  proof (cases "t_owner tm = this")
    case True
    from o have "this \<in> dom (w_objs w)" by auto
    with heap_okD(4) [OF H] True show ?thesis unfolding oid by auto
  next
    case False
    from foreign [OF False, of t] t have "w_timers w t = Some tm" by simp
    from world_okD(4) [OF W this] show ?thesis unfolding oid .
  qed
  from H' 1 dom' 2 show ?thesis
    unfolding world_ok_def by blast
qed

lemma world_remove:
  assumes W: "world_ok w L" and o: "w_objs w this = Some obj"
    and proto: "key \<notin> set Object_prototype_keys"
  shows "\<exists>w'. LRU_remove this key w = Done Undefined w'
      \<and> world_ok w' (L(this := without_key (w_nodes w) key (L this)))
      \<and> frame w w' this (set (L this))
      \<and> w_timers w' = cancel (timer_at (w_nodes w) `
            {a \<in> set (L this). key_at (w_nodes w) a = key}) (w_timers w)
      \<and> w_next_addr w' = w_next_addr w \<and> w_next_tid w' = w_next_tid w"
proof -
  note H = world_okD(1) [OF W]
  let ?ns = "L this" and ?ns' = "without_key (w_nodes w) key (L this)"
  from o have dom: "this \<in> dom (w_objs w)" by auto
  note T = world_okD(2) [OF W dom]
  from heap_remove [OF H o proto] obtain w' where
    run: "LRU_remove this key w = Done Undefined w'"
    and H': "heap_ok w' (L(this := ?ns'))"
    and fr: "frame w w' this (set ?ns)"
    and tm: "w_timers w' = cancel (timer_at (w_nodes w) `
            {a \<in> set ?ns. key_at (w_nodes w) a = key}) (w_timers w)"
    and same: "w_next_addr w' = w_next_addr w" "w_next_tid w' = w_next_tid w"
    by (elim exE conjE)
  have gone: "{a \<in> set ?ns. key_at (w_nodes w) a = key} = set ?ns - set ?ns'"
    by (auto simp: set_without_key)
  have pay: "payload (w_nodes w') b = payload (w_nodes w) b" if "b \<in> set ?ns" for b
    using that heap_okD(3) [OF H, of this] by (intro frame_payload [OF fr]) auto
  from heap_okD(1) [OF H dom] have "distinct ?ns" by (rule lru_okE)
  then have dist: "distinct ?ns'" unfolding without_key_def by simp
  have sub: "set ?ns' \<subseteq> set ?ns" by (auto simp: set_without_key)
  have T': "timers_ok w' this ?ns'"
    by (rule timers_ok_cancel [OF T pay sub dist]) (simp_all add: tm gone)
  have foreign: "(w_timers w' t = Some tm0) = (w_timers w t = Some tm0)"
    if "t_owner tm0 \<noteq> this" for t tm0
    unfolding tm by (rule cancel_foreign [OF T _ that]) auto
  have dom': "dom (w_timers w') \<subseteq> {..<w_next_tid w'}"
  proof
    fix t assume "t \<in> dom (w_timers w')"
    then obtain tm0 where "w_timers w' t = Some tm0" by auto
    then have "w_timers w t = Some tm0" unfolding tm by (rule cancel_pending)
    from world_ok_pending [OF W this] show "t \<in> {..<w_next_tid w'}"
      unfolding same by simp
  qed
  from world_ok_step [OF W o H' fr T' foreign dom'] run fr tm same show ?thesis
    by (intro exI [of _ w'] conjI)
qed

lemma world_write:
  assumes W: "world_ok w L" and o: "w_objs w this = Some obj"
    and limit: "lru_limit obj \<noteq> 0" and proto: "key \<notin> set Object_prototype_keys"
  shows "\<exists>w'. LRU_write this key val timeLimit w = Done Undefined w'
      \<and> world_ok w' (L(this := written (w_nodes w) (lru_limit obj) key (w_next_addr w) (L this)))
      \<and> frame w w' this (set (L this))
      \<and> w_nodes w' (w_next_addr w) =
           Some \<lparr>n_key = key, n_val = val, n_prev = None,
                 n_next = first_of (evicted (lru_limit obj) (without_key (w_nodes w) key (L this))),
                 n_timeout = Some (w_next_tid w)\<rparr>
      \<and> w_timers w' =
           (cancel (timer_at (w_nodes w) `
              (set (L this) - set (evicted (lru_limit obj) (without_key (w_nodes w) key (L this)))))
              (w_timers w))
           (w_next_tid w \<mapsto> \<lparr>t_owner = this, t_key = key, t_armed = w_now w,
                                t_delay = timeoutTime obj timeLimit\<rparr>)
      \<and> w_next_addr w' = Suc (w_next_addr w) \<and> w_next_tid w' = Suc (w_next_tid w)"
proof -
  note H = world_okD(1) [OF W]
  let ?ns = "L this"
  let ?ns2 = "evicted (lru_limit obj) (without_key (w_nodes w) key (L this))"
  let ?tm = "\<lparr>t_owner = this, t_key = key, t_armed = w_now w,
              t_delay = timeoutTime obj timeLimit\<rparr>"
  from o have dom: "this \<in> dom (w_objs w)" by auto
  note T = world_okD(2) [OF W dom]
  from heap_write [OF H o limit proto, of val timeLimit] obtain w' where
    run: "LRU_write this key val timeLimit w = Done Undefined w'"
    and H': "heap_ok w' (L(this := written (w_nodes w) (lru_limit obj) key (w_next_addr w) ?ns))"
    and fr: "frame w w' this (set ?ns)"
    and node: "w_nodes w' (w_next_addr w) =
           Some \<lparr>n_key = key, n_val = val, n_prev = None, n_next = first_of ?ns2,
                 n_timeout = Some (w_next_tid w)\<rparr>"
    and tm: "w_timers w' =
           (cancel (timer_at (w_nodes w) ` (set ?ns - set ?ns2)) (w_timers w))
           (w_next_tid w \<mapsto> ?tm)"
    and cnt: "w_next_addr w' = Suc (w_next_addr w)" "w_next_tid w' = Suc (w_next_tid w)"
    by (elim exE conjE)
  have pay: "payload (w_nodes w') b = payload (w_nodes w) b" if "b \<in> set ?ns" for b
    using that heap_okD(3) [OF H, of this] by (intro frame_payload [OF fr]) auto
  have sub: "set ?ns2 \<subseteq> set ?ns"
    using set_evicted [of "lru_limit obj" "without_key (w_nodes w) key ?ns"]
    by (auto simp: set_without_key)
  from fr o have "this \<in> dom (w_objs w')" unfolding frame_def by auto
  from heap_okD(1) [OF H' this] have "lru_ok w' this (w_next_addr w # ?ns2)"
    by (simp add: written_def)
  then have "distinct (w_next_addr w # ?ns2)" by (rule lru_okE)
  then have dist: "distinct ?ns2" by simp
  have new: "w_next_addr w \<notin> set ?ns"
    using heap_okD(3) [OF H, of this] by auto
  have T': "timers_ok w' this (w_next_addr w # ?ns2)"
    by (rule timers_ok_arm [OF T pay sub dist world_ok_fresh_timer [OF W] _ _ new tm])
       (simp_all add: timer_at_def key_at_def node)
  have foreign: "(w_timers w' t = Some tm0) = (w_timers w t = Some tm0)"
    if x: "t_owner tm0 \<noteq> this" for t tm0
  proof (cases "t = w_next_tid w")
    case True
    with x world_ok_fresh_timer [OF W] show ?thesis unfolding tm by auto
  next
    case False
    have "(cancel (timer_at (w_nodes w) ` (set ?ns - set ?ns2)) (w_timers w) t = Some tm0)
          = (w_timers w t = Some tm0)"
      by (rule cancel_foreign [OF T _ x]) auto
    with False show ?thesis unfolding tm by simp
  qed
  have dom': "dom (w_timers w') \<subseteq> {..<w_next_tid w'}"
  proof
    fix t assume "t \<in> dom (w_timers w')"
    then obtain tm0 where t: "w_timers w' t = Some tm0" by auto
    show "t \<in> {..<w_next_tid w'}"
    proof (cases "t = w_next_tid w")
      case True
      then show ?thesis unfolding cnt by simp
    next
      case False
      with t have "cancel (timer_at (w_nodes w) ` (set ?ns - set ?ns2)) (w_timers w) t = Some tm0"
        unfolding tm by simp
      then have "w_timers w t = Some tm0" by (rule cancel_pending)
      from world_ok_pending [OF W this] show ?thesis unfolding cnt by simp
    qed
  qed
  have "world_ok w' (L(this := w_next_addr w # ?ns2))"
    using H' by (intro world_ok_step [OF W o _ fr T' foreign dom']) (simp add: written_def)
  then have "world_ok w' (L(this := written (w_nodes w) (lru_limit obj) key (w_next_addr w) ?ns))"
    by (simp add: written_def)
  with run fr node tm cnt show ?thesis
    by (intro exI [of _ w'] conjI)
qed

section \<open>Timers along a run\<close>

lemma world_invI:
  "world_ok w L \<Longrightarrow> w_objs w this = Some obj \<Longrightarrow> lru_class obj = LRU \<Longrightarrow> lru_limit obj = N
   \<Longrightarrow> int (length (L this)) \<le> N \<Longrightarrow> world_inv w this N"
  unfolding world_inv_def by blast

lemma world_inv_cache_inv: "world_inv w this N \<Longrightarrow> cache_inv w this N"
  unfolding world_inv_def cache_inv_def world_ok_def by blast

lemma timers_ok_now [simp]: "timers_ok (w\<lparr>w_now := t\<rparr>) this ns = timers_ok w this ns"
  unfolding timers_ok_def by simp

lemma world_ok_now [simp]: "world_ok (w\<lparr>w_now := t\<rparr>) L = world_ok w L"
  unfolding world_ok_def by simp

lemma world_inv_now [simp]: "world_inv (w\<lparr>w_now := t\<rparr>) this N = world_inv w this N"
  unfolding world_inv_def by simp

lemma world_inv_remove:
  assumes inv: "world_inv w this N"
  shows "world_inv (world_of (LRU_remove other key w)) this N"
proof -
  from inv obtain L obj where W: "world_ok w L" and obj: "w_objs w this = Some obj"
    and cls: "lru_class obj = LRU" and lim: "lru_limit obj = N"
    and len: "int (length (L this)) \<le> N"
    unfolding world_inv_def by blast
  note H = world_okD(1) [OF W]
  show ?thesis
  proof (cases "w_objs w other")
    case None
    then have "LRU_remove other key w = Threw TypeError w"
      by (simp add: LRU_remove_def)
    with inv show ?thesis by simp
  next
    case (Some oobj)
    show ?thesis
    proof (cases "key \<in> set Object_prototype_keys")
      case True
      from heap_remove_proto [OF H Some True] inv show ?thesis by simp
    next
      case False
      from world_remove [OF W Some False] obtain w' where
        run: "LRU_remove other key w = Done Undefined w'"
        and W': "world_ok w' (L(other := without_key (w_nodes w) key (L other)))"
        and fr: "frame w w' other (set (L other))"
        by (elim exE conjE)
      have "world_inv w' this N"
      proof (cases "other = this")
        case True
        from fr obj obtain obj' where "w_objs w' this = Some obj'"
          "lru_class obj' = lru_class obj" "lru_limit obj' = lru_limit obj"
          unfolding True by (rule frame_obj)
        moreover have "int (length ((L(other := without_key (w_nodes w) key (L other))) this)) \<le> N"
          using len length_without_key [of "w_nodes w" key "L this"] True by simp
        ultimately show ?thesis
          using cls lim by (intro world_invI [OF W']) simp_all
      next
        case False
        with fr obj have "w_objs w' this = Some obj"
          unfolding frame_def by simp
        moreover have "int (length ((L(other := without_key (w_nodes w) key (L other))) this)) \<le> N"
          using len False by simp
        ultimately show ?thesis
          using cls lim by (intro world_invI [OF W']) simp_all
      qed
      with run show ?thesis by simp
    qed
  qed
qed

lemma world_inv_write:
  assumes inv: "world_inv w this N" and pos: "0 < N"
  shows "world_inv (world_of (LRU_write this key val timeLimit w)) this N"
proof -
  from inv obtain L obj where W: "world_ok w L" and obj: "w_objs w this = Some obj"
    and cls: "lru_class obj = LRU" and lim: "lru_limit obj = N"
    and len: "int (length (L this)) \<le> N"
    unfolding world_inv_def by blast
  note H = world_okD(1) [OF W]
  show ?thesis
  proof (cases "key \<in> set Object_prototype_keys")
    case True
    from heap_write_proto [OF H obj True] inv show ?thesis by simp
  next
    case False
    from pos lim have "lru_limit obj \<noteq> 0" by simp
    from world_write [OF W obj this False, of val timeLimit] obtain w' where
      run: "LRU_write this key val timeLimit w = Done Undefined w'"
      and W': "world_ok w' (L(this := written (w_nodes w) (lru_limit obj) key (w_next_addr w) (L this)))"
      and fr: "frame w w' this (set (L this))"
      by (elim exE conjE)
    from fr obj obtain obj' where "w_objs w' this = Some obj'"
      "lru_class obj' = lru_class obj" "lru_limit obj' = lru_limit obj"
      by (rule frame_obj)
    moreover have "int (length ((L(this := written (w_nodes w) (lru_limit obj) key
        (w_next_addr w) (L this))) this)) \<le> N"
      using length_written [OF len pos] lim by simp
    ultimately have "world_inv w' this N"
      using cls lim by (intro world_invI [OF W']) simp_all
    with run show ?thesis by simp
  qed
qed

lemma world_inv_read:
  assumes inv: "world_inv w this N" and pos: "0 < N"
  shows "world_inv (world_of (LRU_read this key w)) this N"
proof -
  from inv obtain obj where obj: "w_objs w this = Some obj"
    unfolding world_inv_def by blast
  show ?thesis
  proof (cases "cache_lookup obj key")
    case Missing
    with obj inv show ?thesis by (simp add: LRU_read_def)
  next
    case Inherited
    with obj have "LRU_read this key w = LRU_remove this key w"
      by (simp add: LRU_read_def)
    with world_inv_remove [OF inv] show ?thesis by simp
  next
    case (OwnNode a)
    show ?thesis
    proof (cases "w_nodes w a")
      case None
      with obj OwnNode inv show ?thesis by (simp add: LRU_read_def)
    next
      case (Some node)
      with obj OwnNode have r: "LRU_read this key w =
          andThen (LRU_remove this key w) (this_write this key (n_val node))"
        by (simp add: LRU_read_def)
      have inv1: "world_inv (world_of (LRU_remove this key w)) this N"
        by (rule world_inv_remove [OF inv])
      show ?thesis
      proof (cases "LRU_remove this key w")
        case (Threw e w1)
        with inv1 r show ?thesis by simp
      next
        case (Done v w1)
        with inv1 have i: "world_inv w1 this N" by simp
        from world_inv_write [OF i pos, of key "n_val node" None] Done r
        show ?thesis
          by (simp add: cache_inv_this_write [OF world_inv_cache_inv [OF i] pos])
      qed
    qed
  qed
qed

text \<open>
  A timer that fires finds the entry it was armed for: removing its handle from the table
  first makes no difference to what \<^verbatim>\<open>remove\<close> then does.
\<close>

lemma LRU_remove_fired:
  assumes "w_objs w this = Some obj" and "lru_cache obj key = Some a"
    and "w_nodes w a = Some n" and "n_timeout n = Some t"
  shows "LRU_remove this key (w\<lparr>w_timers := (w_timers w)(t := None)\<rparr>) = LRU_remove this key w"
  using assms
  by (cases "n_prev n"; cases "n_next n")
     (simp_all add: LRU_remove_def cache_lookup_def clearTimeout_def set_next_def set_prev_def
        upd_obj_def Let_def)

lemma fire_timer_pending:
  assumes W: "world_ok w L" and t: "w_timers w t = Some tm"
    and o: "w_objs w (t_owner tm) = Some obj"
  shows "\<exists>a n. lru_cache obj (t_key tm) = Some a \<and> w_nodes w a = Some n \<and> n_timeout n = Some t
              \<and> n_key n = t_key tm \<and> a \<in> set (L (t_owner tm))"
proof -
  let ?o = "t_owner tm"
  from o have dom: "?o \<in> dom (w_objs w)" by auto
  note T = world_okD(2) [OF W dom] and ok = heap_okD(1) [OF world_okD(1) [OF W] dom]
  from timers_okD(3) [OF T t refl] obtain a where
    a: "a \<in> set (L ?o)" "timer_at (w_nodes w) a = Some t" by force
  from timers_okD(1) [OF T a(1)] a(2) t have k: "t_key tm = key_at (w_nodes w) a"
    by auto
  from ok obtain obj' where "w_objs w ?o = Some obj'"
    and keys: "distinct (map (key_at (w_nodes w)) (L ?o))"
    and idx: "lru_cache obj' = index_of (w_nodes w) (L ?o)"
    by (rule lru_okE)
  with o have idx: "lru_cache obj = index_of (w_nodes w) (L ?o)" by simp
  have c: "lru_cache obj (t_key tm) = Some a"
    unfolding idx using keys a(1) k by (simp add: index_of_Some)
  from a(2) obtain n where n: "w_nodes w a = Some n" "n_timeout n = Some t"
    by (auto simp: timer_at_def split: option.splits)
  with k have "n_key n = t_key tm" by (simp add: key_at_def)
  with c n a(1) show ?thesis by blast
qed

lemma world_ok_drop_orphan:
  assumes W: "world_ok w L" and t: "w_timers w t = Some tm"
    and o: "w_objs w (t_owner tm) = None"
  shows "world_ok (w\<lparr>w_timers := (w_timers w)(t := None)\<rparr>) L"
proof -
  let ?w' = "w\<lparr>w_timers := (w_timers w)(t := None)\<rparr>"
  have 1: "timers_ok ?w' x (L x)" if x: "x \<in> dom (w_objs ?w')" for x
  proof -
    from x have x': "x \<in> dom (w_objs w)" by simp
    with o have ne: "t_owner tm \<noteq> x" by auto
    have "(w_timers ?w' t0 = Some tm0) = (w_timers w t0 = Some tm0)" if "t_owner tm0 = x" for t0 tm0
      using that ne t by auto
    from timers_ok_other [OF world_okD(2) [OF W x'] _ this] show ?thesis by simp
  qed
  have 2: "dom (w_timers ?w') \<subseteq> {..<w_next_tid ?w'}"
    using world_okD(3) [OF W] by auto
  have 3: "t_owner tm0 < w_next_oid ?w'" if "w_timers ?w' t0 = Some tm0" for t0 tm0
  proof -
    from that have "w_timers w t0 = Some tm0" by (simp split: if_splits)
    from world_okD(4) [OF W this] show ?thesis by simp
  qed
  from world_okD(1) [OF W] 1 2 3 show ?thesis
    unfolding world_ok_def by simp
qed

lemma world_inv_fire:
  assumes inv: "world_inv w this N"
  shows "world_inv (world_of (fire_timer t w)) this N"
proof (cases "w_timers w t")
  case None
  with inv show ?thesis by (simp add: fire_timer_def)
next
  case (Some tm)
  show ?thesis
  proof (cases "w_now w < t_armed tm + t_delay tm")
    case True
    with Some inv show ?thesis by (simp add: fire_timer_def)
  next
    case False
    let ?w1 = "w\<lparr>w_timers := (w_timers w)(t := None)\<rparr>"
    from Some False have f: "fire_timer t w = LRU_remove (t_owner tm) (t_key tm) ?w1"
      by (simp add: fire_timer_def)
    from inv obtain L obj where W: "world_ok w L" and obj: "w_objs w this = Some obj"
      and rest: "lru_class obj = LRU" "lru_limit obj = N" "int (length (L this)) \<le> N"
      unfolding world_inv_def by blast
    show ?thesis
    proof (cases "w_objs w (t_owner tm)")
      case None
      then have "LRU_remove (t_owner tm) (t_key tm) ?w1 = Threw TypeError ?w1"
        by (simp add: LRU_remove_def)
      moreover have "world_inv ?w1 this N"
        using obj rest by (intro world_invI [OF world_ok_drop_orphan [OF W Some None]]) simp_all
      ultimately show ?thesis unfolding f by simp
    next
      case (Some oobj)
      from fire_timer_pending [OF W \<open>w_timers w t = Some tm\<close> Some] obtain a n where
        "lru_cache oobj (t_key tm) = Some a" "w_nodes w a = Some n" "n_timeout n = Some t"
        by blast
      from LRU_remove_fired [OF Some this] world_inv_remove [OF inv]
      show ?thesis unfolding f by simp
    qed
  qed
qed

lemma world_inv_step:
  assumes "world_inv w this N" and "0 < N"
  shows "world_inv (world_of (step this x w)) this N"
  using assms
  by (cases x)
     (simp_all add: world_inv_write world_inv_read world_inv_remove world_inv_fire sleep_def)

lemma world_inv_run:
  assumes "world_inv w this N" and "0 < N"
  shows "world_inv (run this ops w) this N"
  using assms by (induction ops arbitrary: w) (simp_all add: world_inv_step)

lemma world_ok_empty: "world_ok empty_world (\<lambda>_. [])"
  unfolding world_ok_def using heap_ok_empty by (simp add: empty_world_def timers_ok_def)

lemma world_ok_new_object:
  assumes W: "world_ok w L"
    and empty: "lru_head obj = None" "lru_tail obj = None" "lru_length obj = 0"
      "lru_cache obj = Map.empty"
  shows "world_ok (snd (new_object obj w)) (L(w_next_oid w := []))"
proof -
  let ?new = "w_next_oid w" and ?w' = "snd (new_object obj w)"
  have fields: "w_nodes ?w' = w_nodes w" "w_timers ?w' = w_timers w"
    "w_objs ?w' = (w_objs w)(?new \<mapsto> obj)" "w_next_oid ?w' = Suc ?new"
    "w_next_tid ?w' = w_next_tid w"
    by (simp_all add: new_object_def)
  have H': "heap_ok ?w' (L(?new := []))"
    by (rule heap_ok_new_object [OF world_okD(1) [OF W] empty])
  have 1: "timers_ok ?w' x ((L(?new := [])) x)" if "x \<in> dom (w_objs ?w')" for x
  proof (cases "x = ?new")
    case True
    have "t_owner tm \<noteq> ?new" if "w_timers w t = Some tm" for t tm
      using world_okD(4) [OF W that] by simp
    with True show ?thesis
      unfolding timers_ok_def fields by auto
  next
    case False
    with that have "x \<in> dom (w_objs w)" unfolding fields by auto
    from world_okD(2) [OF W this] False show ?thesis
      unfolding timers_ok_def fields by simp
  qed
  have 2: "t_owner tm < w_next_oid ?w'" if "w_timers ?w' t = Some tm" for t tm
    using world_okD(4) [OF W that [unfolded fields]] unfolding fields by simp
  from H' 1 2 world_okD(3) [OF W] show ?thesis
    unfolding world_ok_def fields by blast
qed

lemma new_LRU_world_inv:
  assumes W: "world_ok w L" and N: "0 \<le> N"
  shows "\<exists>w'. new_LRU (Some N) timeLimit w = Done (ObjectRef (w_next_oid w)) w'
           \<and> world_inv w' (w_next_oid w) N"
proof -
  let ?obj = "LRU_fields LRU (Some N) timeLimit"
  have W': "world_ok (snd (new_object ?obj w)) (L(w_next_oid w := []))"
    by (rule world_ok_new_object [OF W]) (simp_all add: LRU_fields_def)
  have "world_inv (snd (new_object ?obj w)) (w_next_oid w) N"
    using N by (intro world_invI [OF W', of _ ?obj]) (simp_all add: new_object_def LRU_fields_def)
  then show ?thesis
    by (simp add: new_LRU_def new_object_def split_def)
qed

section \<open>Pending expiries and reads of a key\<close>

lemma distinct_singleton: "distinct xs \<Longrightarrow> set xs = {t} \<Longrightarrow> xs = [t]"
proof (cases xs)
  case Nil
  assume "set xs = {t}"
  with Nil show ?thesis by simp
next
  case (Cons x ys)
  assume d: "distinct xs" and s: "set xs = {t}"
  from s Cons have x: "x = t" by auto
  from s Cons have "set ys \<subseteq> {t}" by auto
  moreover from d Cons x have "t \<notin> set ys" by simp
  ultimately have "ys = []" by (cases ys) auto
  with Cons x show ?thesis by simp
qed

lemma index_of_member:
  assumes ok: "lru_ok w this ns" and o: "w_objs w this = Some obj"
    and c: "lru_cache obj key = Some a"
  shows "a \<in> set ns" and "key_at (w_nodes w) a = key" and "key \<notin> set Object_prototype_keys"
    and "\<exists>n. w_nodes w a = Some n \<and> n_key n = key"
    and "{b \<in> set ns. key_at (w_nodes w) b = key} = {a}"
proof -
  from ok obtain obj' where "w_objs w this = Some obj'"
    and d: "dll (w_nodes w) None ns None"
    and keys: "distinct (map (key_at (w_nodes w)) ns)"
    and proto: "set (map (key_at (w_nodes w)) ns) \<inter> set Object_prototype_keys = {}"
    and idx: "lru_cache obj' = index_of (w_nodes w) ns"
    by (rule lru_okE)
  with o have idx: "lru_cache obj = index_of (w_nodes w) ns" by simp
  from c show a: "a \<in> set ns" and k: "key_at (w_nodes w) a = key"
    unfolding idx by (simp_all add: index_of_Some [OF keys])
  from proto a k show "key \<notin> set Object_prototype_keys" by auto
  from dll_nodes [OF d a] k show "\<exists>n. w_nodes w a = Some n \<and> n_key n = key"
    by (auto simp: key_at_def)
  have "b = a" if "b \<in> set ns" "key_at (w_nodes w) b = key" for b
  proof -
    from that have "index_of (w_nodes w) ns key = Some b"
      by (simp add: index_of_Some [OF keys])
    with c idx show ?thesis by simp
  qed
  with a k show "{b \<in> set ns. key_at (w_nodes w) b = key} = {a}" by blast
qed

lemma cache_head:
  assumes ok: "lru_ok w this (a # ns)" and o: "w_objs w this = Some obj"
    and n: "w_nodes w a = Some n"
  shows "lru_cache obj (n_key n) = Some a"
proof -
  from ok obtain obj' where "w_objs w this = Some obj'"
    and idx: "lru_cache obj' = index_of (w_nodes w) (a # ns)"
    by (rule lru_okE)
  with o have "lru_cache obj = index_of (w_nodes w) (a # ns)" by simp
  then show ?thesis
    unfolding index_of_def using n by (simp add: key_at_def)
qed

lemma cache_none:
  assumes ok: "lru_ok w this ns" and o: "w_objs w this = Some obj"
    and k: "\<And>b. b \<in> set ns \<Longrightarrow> key_at (w_nodes w) b \<noteq> key"
  shows "lru_cache obj key = None"
proof -
  from ok obtain obj' where "w_objs w this = Some obj'"
    and idx: "lru_cache obj' = index_of (w_nodes w) ns"
    by (rule lru_okE)
  with o have "lru_cache obj = index_of (w_nodes w) ns" by simp
  with k show ?thesis by (auto simp: index_of_None)
qed

text \<open>A key in the index has exactly one pending timer; a key not in the index has none.\<close>

lemma pending_iff:
  "t \<in> set (pending w this key)
     \<longleftrightarrow> t < w_next_tid w \<and> (\<exists>tm. w_timers w t = Some tm \<and> t_owner tm = this \<and> t_key tm = key)"
  unfolding pending_def by (auto split: option.splits)

lemma pending_present:
  assumes W: "world_ok w L" and o: "w_objs w this = Some obj"
    and c: "lru_cache obj key = Some a"
  shows "\<exists>t tm. timer_at (w_nodes w) a = Some t \<and> w_timers w t = Some tm
            \<and> t_owner tm = this \<and> t_key tm = key \<and> t < w_next_tid w
            \<and> pending w this key = [t]"
proof -
  from o have dom: "this \<in> dom (w_objs w)" by auto
  note T = world_okD(2) [OF W dom] and ok = heap_okD(1) [OF world_okD(1) [OF W] dom]
  note a = index_of_member [OF ok o c]
  from timers_okD(1) [OF T a(1)] a(2) obtain t tm where
    t: "timer_at (w_nodes w) a = Some t" "w_timers w t = Some tm"
      "t_owner tm = this" "t_key tm = key"
    by auto
  from world_okD(3) [OF W] t(2) have lt: "t < w_next_tid w" by auto
  have "t' = t" if "t' \<in> set (pending w this key)" for t'
  proof -
    from that obtain tm' where p: "w_timers w t' = Some tm'" "t_owner tm' = this"
      "t_key tm' = key"
      unfolding pending_iff by blast
    from o p(2) have "w_objs w (t_owner tm') = Some obj" by simp
    from fire_timer_pending [OF W p(1) this] p(3) c obtain n where
      "w_nodes w a = Some n" "n_timeout n = Some t'"
      by auto
    with t(1) show ?thesis by (simp add: timer_at_def)
  qed
  moreover have "t \<in> set (pending w this key)"
    unfolding pending_iff using t lt by simp
  ultimately have "set (pending w this key) = {t}" by blast
  moreover have "distinct (pending w this key)"
    unfolding pending_def by simp
  ultimately have "pending w this key = [t]"
    by (intro distinct_singleton)
  with t lt show ?thesis by blast
qed

lemma pending_absent:
  assumes W: "world_ok w L" and o: "w_objs w this = Some obj"
    and c: "lru_cache obj key = None"
  shows "pending w this key = []"
proof -
  have "t \<notin> set (pending w this key)" for t
  proof
    assume "t \<in> set (pending w this key)"
    then obtain tm where p: "w_timers w t = Some tm" "t_owner tm = this" "t_key tm = key"
      unfolding pending_iff by blast
    from o p(2) have "w_objs w (t_owner tm) = Some obj" by simp
    from fire_timer_pending [OF W p(1) this] p(3) c show False by auto
  qed
  from this [of "hd (pending w this key)"] show ?thesis
    by (cases "pending w this key") simp_all
qed

lemma pending_at_most_one:
  assumes W: "world_ok w L" and o: "w_objs w this = Some obj"
  shows "length (pending w this key) \<le> (if cached w this key = None then 0 else 1)"
proof -
  from o have dom: "this \<in> dom (w_objs w)" by auto
  note ok = heap_okD(1) [OF world_okD(1) [OF W] dom]
  show ?thesis
  proof (cases "lru_cache obj key")
    case None
    from pending_absent [OF W o None] show ?thesis by simp
  next
    case (Some a)
    from index_of_member(4) [OF ok o Some] Some o have "cached w this key \<noteq> None"
      by (auto simp: cached_def)
    with pending_present [OF W o Some] show ?thesis by auto
  qed
qed

lemma pending_at_most_one_inv:
  assumes "world_inv w this N"
  shows "length (pending w this key) \<le> (if cached w this key = None then 0 else 1)"
proof -
  from assms obtain L obj where W: "world_ok w L" and o: "w_objs w this = Some obj"
    unfolding world_inv_def by blast
  from pending_at_most_one [OF W o] show ?thesis .
qed






lemma cancel_nothing [simp]: "cancel {} T = T"
  unfolding cancel_def by simp


section \<open>Writing a key again\<close>

text \<open>
  A timer that is due fires: it removes the entry it was armed for, after which neither
  a second firing of the handle nor another \<^verbatim>\<open>remove\<close> of the key does anything.
\<close>

lemma expire_removes:
  assumes W: "world_ok w L" and o: "w_objs w this = Some obj"
    and c: "lru_cache obj key = Some a"
    and t: "timer_at (w_nodes w) a = Some t" "w_timers w t = Some tm"
      "t_owner tm = this" "t_key tm = key"
    and due: "t_armed tm + t_delay tm \<le> w_now w"
  shows "\<exists>w'. fire_timer t w = Done Undefined w'
      \<and> world_ok w' (L(this := without_key (w_nodes w) key (L this)))
      \<and> cached w' this key = None
      \<and> pending w' this key = []
      \<and> fire_timer t w' = Done Undefined w'
      \<and> LRU_remove this key w' = Done Undefined w'"
proof -
  let ?wk = "without_key (w_nodes w) key (L this)"
  from o have dom: "this \<in> dom (w_objs w)" by auto
  note ok = heap_okD(1) [OF world_okD(1) [OF W] dom]
  note a = index_of_member [OF ok o c]
  from ok have alloc: "set (L this) \<subseteq> {..<w_next_addr w}"
    by (rule lru_okE)
  from a(4) obtain n where n: "w_nodes w a = Some n" by blast
  with t(1) have nt: "n_timeout n = Some t" by (simp add: timer_at_def)
  from t(2) due have "fire_timer t w
      = LRU_remove (t_owner tm) (t_key tm) (w\<lparr>w_timers := (w_timers w)(t := None)\<rparr>)"
    by (simp add: fire_timer_def)
  also have "\<dots> = LRU_remove this key w"
    unfolding t(3,4) by (rule LRU_remove_fired [OF o c n nt])
  finally have f: "fire_timer t w = LRU_remove this key w" .
  from world_remove [OF W o a(3)] obtain w' where
    run: "LRU_remove this key w = Done Undefined w'"
    and W': "world_ok w' (L(this := ?wk))"
    and fr: "frame w w' this (set (L this))"
    and tm': "w_timers w' = cancel (timer_at (w_nodes w) `
            {a \<in> set (L this). key_at (w_nodes w) a = key}) (w_timers w)"
    by (elim exE conjE)
  from fr o obtain obj' where o': "w_objs w' this = Some obj'"
    by (rule frame_obj)
  then have dom': "this \<in> dom (w_objs w')" by auto
  from heap_okD(1) [OF world_okD(1) [OF W'] dom'] have ok': "lru_ok w' this ?wk"
    by simp
  have "key_at (w_nodes w') b \<noteq> key" if "b \<in> set ?wk" for b
  proof -
    from that have b: "b \<in> set (L this)" "key_at (w_nodes w) b \<noteq> key"
      unfolding without_key_def by simp_all
    with alloc have "b < w_next_addr w" by auto
    from frame_key_at [OF fr this] b(2) show ?thesis by simp
  qed
  from cache_none [OF ok' o' this] have none: "lru_cache obj' key = None" .
  with o' have 1: "cached w' this key = None"
    by (simp add: cached_def)
  from pending_absent [OF W' o' none] have 2: "pending w' this key = []" .
  have "w_timers w' t = None"
    unfolding tm' a(5) using t(1) by (simp add: cancel_def)
  then have 3: "fire_timer t w' = Done Undefined w'"
    by (simp add: fire_timer_def)
  from o' none a(3) have 4: "LRU_remove this key w' = Done Undefined w'"
    by (simp add: LRU_remove_def cache_lookup_def)
  from f run have 0: "fire_timer t w = Done Undefined w'" by simp
  from 0 W' 1 2 3 4 show ?thesis
    by (intro exI [of _ w'] conjI)
qed

text \<open>\<^verbatim>\<open>write\<close> of a key that is in the index.\<close>

lemma write_present:
  assumes W: "world_ok w L" and o: "w_objs w this = Some obj"
    and lim: "lru_limit obj \<noteq> 0" and c: "lru_cache obj key = Some a"
  shows "\<exists>w' obj' t_old.
        LRU_write this key val timeLimit w = Done Undefined w'
      \<and> world_ok w' (L(this := written (w_nodes w) (lru_limit obj) key (w_next_addr w) (L this)))
      \<and> w_objs w' this = Some obj'
      \<and> lru_cache obj' key = Some (w_next_addr w)
      \<and> timer_at (w_nodes w') (w_next_addr w) = Some (w_next_tid w)
      \<and> pending w this key = [t_old]
      \<and> w_timers w' t_old = None
      \<and> pending w' this key = [w_next_tid w]
      \<and> w_timers w' (w_next_tid w) =
           Some \<lparr>t_owner = this, t_key = key, t_armed = w_now w,
                   t_delay = timeoutTime obj timeLimit\<rparr>
      \<and> cached w' this key = Some val
      \<and> w_now w' = w_now w"
proof -
  let ?wk = "without_key (w_nodes w) key (L this)"
  let ?L' = "L(this := written (w_nodes w) (lru_limit obj) key (w_next_addr w) (L this))"
  from o have dom: "this \<in> dom (w_objs w)" by auto
  note ok = heap_okD(1) [OF world_okD(1) [OF W] dom]
  note a = index_of_member [OF ok o c]
  from pending_present [OF W o c] obtain t_old where
    old: "timer_at (w_nodes w) a = Some t_old" "t_old < w_next_tid w"
      "pending w this key = [t_old]"
    by blast
  from world_write [OF W o lim a(3), of val timeLimit] obtain w' where
    run: "LRU_write this key val timeLimit w = Done Undefined w'"
    and W': "world_ok w' ?L'"
    and fr: "frame w w' this (set (L this))"
    and nd: "w_nodes w' (w_next_addr w) =
           Some \<lparr>n_key = key, n_val = val, n_prev = None,
                 n_next = first_of (evicted (lru_limit obj) ?wk),
                 n_timeout = Some (w_next_tid w)\<rparr>"
    and tms: "w_timers w' =
           (cancel (timer_at (w_nodes w) `
              (set (L this) - set (evicted (lru_limit obj) ?wk)))
              (w_timers w))
           (w_next_tid w \<mapsto> \<lparr>t_owner = this, t_key = key, t_armed = w_now w,
                                t_delay = timeoutTime obj timeLimit\<rparr>)"
    by (elim exE conjE)
  from fr o obtain obj' where o': "w_objs w' this = Some obj'"
    by (rule frame_obj)
  then have dom': "this \<in> dom (w_objs w')" by auto
  from heap_okD(1) [OF world_okD(1) [OF W'] dom']
  have ok': "lru_ok w' this (w_next_addr w # evicted (lru_limit obj) ?wk)"
    by (simp add: written_def)
  from cache_head [OF ok' o' nd] have c': "lru_cache obj' key = Some (w_next_addr w)"
    by simp
  from nd have ta: "timer_at (w_nodes w') (w_next_addr w) = Some (w_next_tid w)"
    by (simp add: timer_at_def)
  from pending_present [OF W' o' c'] ta have p': "pending w' this key = [w_next_tid w]"
    by auto
  have "set (evicted (lru_limit obj) ?wk) \<subseteq> set ?wk"
    unfolding evicted_def by (auto dest: in_set_butlastD)
  moreover have "a \<notin> set ?wk" using a(2) unfolding without_key_def by simp
  ultimately have "a \<in> set (L this) - set (evicted (lru_limit obj) ?wk)"
    using a(1) by blast
  then have "Some t_old \<in> timer_at (w_nodes w) `
      (set (L this) - set (evicted (lru_limit obj) ?wk))"
    using old(1) by (metis imageI)
  with old(2) have gone: "w_timers w' t_old = None"
    unfolding tms by (simp add: cancel_def)
  have new: "w_timers w' (w_next_tid w) =
           Some \<lparr>t_owner = this, t_key = key, t_armed = w_now w,
                   t_delay = timeoutTime obj timeLimit\<rparr>"
    unfolding tms by simp
  from cached_head [OF ok' nd] have cv: "cached w' this key = Some val" by simp
  note now = frame_now [OF fr]
  from run W' o' c' ta old(3) gone p' new cv now show ?thesis
    by (intro exI [of _ w'] exI [of _ obj'] exI [of _ t_old] conjI)
qed

lemma cached_SomeD:
  assumes "cached w this key = Some v" and "w_objs w this = Some obj"
  shows "\<exists>a. lru_cache obj key = Some a"
  using assms by (auto simp: cached_def split: option.splits)

text \<open>
  C7. In a well-formed store, \<^verbatim>\<open>write\<close> (the method of class \<^verbatim>\<open>LRU\<close>, on a cache of any
  class with a limit other than 0) of a key that is present completes; the one expiry that
  was armed for the key is cleared; exactly one expiry is armed for the key afterwards,
  the new one, armed at the time of the write with the delay
  \<^verbatim>\<open>timeLimit || this.timeLimit\<close>; the store is well formed again, with at most one expiry
  armed for any key of the cache. Once the delay has passed, the firing of the new timer
  removes the entry, after which no expiry is armed for the key, and a second firing of
  the handle or another \<^verbatim>\<open>remove\<close> of the key changes nothing. For a cache of class \<^verbatim>\<open>LRU\<close>
  that is within its positive limit: whatever is done to the cache after the write
  (calls of \<^verbatim>\<open>write\<close>, \<^verbatim>\<open>read\<close> and \<^verbatim>\<open>remove\<close>, timers firing, time passing), there is at
  most one expiry armed for the key, and none when the key is not in the cache.
\<close>

theorem rewrite_cancels_and_rearms_once:
  assumes W: "world_ok w L" and o: "w_objs w this = Some obj" and lim: "lru_limit obj \<noteq> 0"
    and present: "cached w this key = Some v0"
  shows "\<exists>w' t_old.
        LRU_write this key val timeLimit w = Done Undefined w'
      \<and> pending w this key = [t_old]
      \<and> w_timers w' t_old = None
      \<and> pending w' this key = [w_next_tid w]
      \<and> w_timers w' (w_next_tid w) =
           Some \<lparr>t_owner = this, t_key = key, t_armed = w_now w,
                   t_delay = timeoutTime obj timeLimit\<rparr>
      \<and> (\<exists>L'. world_ok w' L')
      \<and> (\<forall>k. length (pending w' this k) \<le> 1)
      \<and> (\<forall>ms. timeoutTime obj timeLimit \<le> int ms \<longrightarrow>
            (\<exists>w''. fire_timer (w_next_tid w) (sleep ms w') = Done Undefined w''
                \<and> cached w'' this key = None
                \<and> pending w'' this key = []
                \<and> (\<exists>L''. world_ok w'' L'')
                \<and> fire_timer (w_next_tid w) w'' = Done Undefined w''
                \<and> LRU_remove this key w'' = Done Undefined w''))
      \<and> (lru_class obj = LRU \<and> 0 < lru_limit obj \<and> lru_length obj \<le> lru_limit obj \<longrightarrow>
            (\<forall>ops. length (pending (run this ops w') this key)
                      \<le> (if cached (run this ops w') this key = None then 0 else 1)))"
proof -
  from cached_SomeD [OF present o] obtain a where c: "lru_cache obj key = Some a" ..
  let ?L' = "L(this := written (w_nodes w) (lru_limit obj) key (w_next_addr w) (L this))"
  let ?tm = "\<lparr>t_owner = this, t_key = key, t_armed = w_now w,
               t_delay = timeoutTime obj timeLimit\<rparr>"
  from write_present [OF W o lim c, of val timeLimit] obtain w' obj' t_old where
    run: "LRU_write this key val timeLimit w = Done Undefined w'"
    and W': "world_ok w' ?L'"
    and o': "w_objs w' this = Some obj'"
    and c': "lru_cache obj' key = Some (w_next_addr w)"
    and ta: "timer_at (w_nodes w') (w_next_addr w) = Some (w_next_tid w)"
    and old: "pending w this key = [t_old]"
    and gone: "w_timers w' t_old = None"
    and p': "pending w' this key = [w_next_tid w]"
    and new: "w_timers w' (w_next_tid w) = Some ?tm"
    and now: "w_now w' = w_now w"
    by (elim exE conjE)
  have wf: "\<exists>L'. world_ok w' L'" by (rule exI [of _ ?L']) (rule W')
  have "length (pending w' this k) \<le> 1" for k
    using pending_at_most_one [OF W' o', of k] by (simp split: if_splits)
  then have one: "\<forall>k. length (pending w' this k) \<le> 1" ..
  have fires: "\<exists>w''. fire_timer (w_next_tid w) (sleep ms w') = Done Undefined w''
                \<and> cached w'' this key = None
                \<and> pending w'' this key = []
                \<and> (\<exists>L''. world_ok w'' L'')
                \<and> fire_timer (w_next_tid w) w'' = Done Undefined w''
                \<and> LRU_remove this key w'' = Done Undefined w''"
    if due: "timeoutTime obj timeLimit \<le> int ms" for ms
  proof -
    let ?w1 = "sleep ms w'"
    have W1: "world_ok ?w1 ?L'" using W' by (simp add: sleep_def)
    have o1: "w_objs ?w1 this = Some obj'" using o' by (simp add: sleep_def)
    have ta1: "timer_at (w_nodes ?w1) (w_next_addr w) = Some (w_next_tid w)"
      using ta by (simp add: sleep_def)
    have new1: "w_timers ?w1 (w_next_tid w) = Some ?tm"
      using new by (simp add: sleep_def)
    have due1: "t_armed ?tm + t_delay ?tm \<le> w_now ?w1"
      using due now by (simp add: sleep_def)
    from expire_removes [OF W1 o1 c' ta1 new1 _ _ due1] show ?thesis
      by auto
  qed
  then have fires': "\<forall>ms. timeoutTime obj timeLimit \<le> int ms \<longrightarrow>
            (\<exists>w''. fire_timer (w_next_tid w) (sleep ms w') = Done Undefined w''
                \<and> cached w'' this key = None
                \<and> pending w'' this key = []
                \<and> (\<exists>L''. world_ok w'' L'')
                \<and> fire_timer (w_next_tid w) w'' = Done Undefined w''
                \<and> LRU_remove this key w'' = Done Undefined w'')"
    by (intro allI impI)
  have later: "length (pending (run this ops w') this key)
      \<le> (if cached (run this ops w') this key = None then 0 else 1)"
    if cls: "lru_class obj = LRU" and pos: "0 < lru_limit obj"
      and len: "lru_length obj \<le> lru_limit obj" for ops
  proof -
    from o have dom: "this \<in> dom (w_objs w)" by auto
    from heap_okD(1) [OF world_okD(1) [OF W] dom] o
    have "lru_length obj = int (length (L this))"
      by (auto elim: lru_okE)
    with len have "int (length (L this)) \<le> lru_limit obj" by simp
    from world_invI [OF W o cls refl this] have inv: "world_inv w this (lru_limit obj)" .
    from world_inv_write [OF inv pos, of key val timeLimit] run
    have inv': "world_inv w' this (lru_limit obj)" by simp
    show ?thesis
      by (rule pending_at_most_one_inv [OF world_inv_run [OF inv' pos]])
  qed
  then have later': "lru_class obj = LRU \<and> 0 < lru_limit obj \<and> lru_length obj \<le> lru_limit obj \<longrightarrow>
            (\<forall>ops. length (pending (run this ops w') this key)
                      \<le> (if cached (run this ops w') this key = None then 0 else 1))"
    by (intro allI impI) (elim conjE)
  from run old gone p' new wf one fires' later' show ?thesis
    by (intro exI [of _ w'] exI [of _ t_old] conjI)
qed

lemma capacity_two_world_ok: "world_ok capacity_two (\<lambda>_. [])"
proof -
  let ?obj = "LRU_fields LRU (Some 2) (Some 1000)"
  have "world_ok (snd (new_object ?obj (empty_world :: int world)))
          ((\<lambda>_. [])(w_next_oid (empty_world :: int world) := []))"
    by (rule world_ok_new_object [OF world_ok_empty]) (simp_all add: LRU_fields_def)
  moreover have "capacity_two = snd (new_object ?obj empty_world)"
    by (simp add: capacity_two_def new_LRU_def split_def Let_def)
  moreover have "(\<lambda>_. [])(0 := []) = (\<lambda>_ :: nat. [] :: nat list)" by auto
  moreover have "w_next_oid (empty_world :: int world) = 0" by (simp add: empty_world_def)
  ultimately show ?thesis by simp
qed

lemma capacity_two_k1_world_ok:
  "world_ok (run 0 [Write ''k1'' 1 None] capacity_two) ((\<lambda>_. [])(0 := [0]))"
proof -
  have o: "w_objs capacity_two 0 = Some (LRU_fields LRU (Some 2) (Some 1000))"
    by (simp add: capacity_two_def new_LRU_def new_object_def empty_world_def)
  have lim: "lru_limit (LRU_fields LRU (Some 2) (Some 1000)) \<noteq> 0"
    by (simp add: LRU_fields_def)
  have proto: "''k1'' \<notin> set Object_prototype_keys"
    by (simp add: Object_prototype_keys_def)
  from world_write [OF capacity_two_world_ok o lim proto, of 1 None] obtain w' where
    run: "LRU_write 0 ''k1'' 1 None capacity_two = Done Undefined w'"
    and W': "world_ok w' ((\<lambda>_. [])(0 := written (w_nodes capacity_two)
               (lru_limit (LRU_fields LRU (Some 2) (Some 1000))) ''k1''
               (w_next_addr capacity_two) []))"
    by (elim exE conjE)
  have a: "w_next_addr capacity_two = 0"
    by (simp add: capacity_two_def new_LRU_def new_object_def empty_world_def)
  have "written (w_nodes capacity_two) (lru_limit (LRU_fields LRU (Some 2) (Some 1000))) ''k1''
          (w_next_addr capacity_two) [] = [0]"
    unfolding a by (simp add: written_def evicted_def without_key_def LRU_fields_def)
  with W' run show ?thesis by simp
qed

text \<open>
  The theorem at the cache of capacity 2 that holds k1: k1 is written again with a TTL of
  500 ms, and 500 ms later the new timer fires.
\<close>

theorem rewrite_cancels_and_rearms_once_witness:
  "world_ok (run 0 [Write ''k1'' 1 None] capacity_two) ((\<lambda>_. [])(0 := [0]))
   \<and> w_objs (run 0 [Write ''k1'' 1 None] capacity_two) 0 =
        Some \<lparr>lru_class = LRU, lru_length = 1, lru_limit = 2, lru_timeLimit = 1000,
               lru_head = Some 0, lru_tail = Some 0, lru_cache = [''k1'' \<mapsto> 0],
               lru_lruKey = None, lru_globalLRU = None, lru_lrus = []\<rparr>
   \<and> cached (run 0 [Write ''k1'' 1 None] capacity_two) 0 ''k1'' = Some 1
   \<and> (\<exists>w' t_old.
        LRU_write 0 ''k1'' 7 (Some 500) (run 0 [Write ''k1'' 1 None] capacity_two)
          = Done Undefined w'
      \<and> pending (run 0 [Write ''k1'' 1 None] capacity_two) 0 ''k1'' = [t_old]
      \<and> w_timers w' t_old = None
      \<and> pending w' 0 ''k1'' = [w_next_tid (run 0 [Write ''k1'' 1 None] capacity_two)]
      \<and> (\<exists>w''. fire_timer (w_next_tid (run 0 [Write ''k1'' 1 None] capacity_two))
                  (sleep 500 w') = Done Undefined w''
             \<and> cached w'' 0 ''k1'' = None
             \<and> pending w'' 0 ''k1'' = []
             \<and> fire_timer (w_next_tid (run 0 [Write ''k1'' 1 None] capacity_two)) w''
                 = Done Undefined w''
             \<and> LRU_remove 0 ''k1'' w'' = Done Undefined w'')
      \<and> (\<forall>ops. length (pending (run 0 ops w') 0 ''k1'')
                  \<le> (if cached (run 0 ops w') 0 ''k1'' = None then 0 else 1)))"
proof -
  let ?w = "run 0 [Write ''k1'' 1 None] capacity_two"
  let ?obj = "\<lparr>lru_class = LRU, lru_length = 1, lru_limit = 2, lru_timeLimit = 1000,
               lru_head = Some 0, lru_tail = Some 0, lru_cache = [''k1'' \<mapsto> (0 :: nat)],
               lru_lruKey = None, lru_globalLRU = None, lru_lrus = []\<rparr>"
  note W = capacity_two_k1_world_ok
  have o: "w_objs ?w 0 = Some ?obj"
    by (simp add: capacity_two_def lru_defs)
  have lim: "lru_limit ?obj \<noteq> 0" by simp
  have present: "cached ?w 0 ''k1'' = Some 1"
    by (simp add: capacity_two_def lru_defs obs_defs)
  from rewrite_cancels_and_rearms_once [OF W o lim present, of 7 "Some 500"]
  obtain w' t_old where
    1: "LRU_write 0 ''k1'' 7 (Some 500) ?w = Done Undefined w'"
    and 2: "pending ?w 0 ''k1'' = [t_old]"
    and 3: "w_timers w' t_old = None"
    and 4: "pending w' 0 ''k1'' = [w_next_tid ?w]"
    and fires: "\<forall>ms. timeoutTime ?obj (Some 500) \<le> int ms \<longrightarrow>
            (\<exists>w''. fire_timer (w_next_tid ?w) (sleep ms w') = Done Undefined w''
                \<and> cached w'' 0 ''k1'' = None
                \<and> pending w'' 0 ''k1'' = []
                \<and> (\<exists>L''. world_ok w'' L'')
                \<and> fire_timer (w_next_tid ?w) w'' = Done Undefined w''
                \<and> LRU_remove 0 ''k1'' w'' = Done Undefined w'')"
    and later: "lru_class ?obj = LRU \<and> 0 < lru_limit ?obj \<and> lru_length ?obj \<le> lru_limit ?obj
          \<longrightarrow> (\<forall>ops. length (pending (run 0 ops w') 0 ''k1'')
                      \<le> (if cached (run 0 ops w') 0 ''k1'' = None then 0 else 1))"
    by (elim exE conjE)
  have due: "timeoutTime ?obj (Some 500) \<le> int 500"
    by (simp add: timeoutTime_def)
  from fires [THEN spec, THEN mp, OF due]
  have 5: "\<exists>w''. fire_timer (w_next_tid ?w) (sleep 500 w') = Done Undefined w''
                \<and> cached w'' 0 ''k1'' = None
                \<and> pending w'' 0 ''k1'' = []
                \<and> fire_timer (w_next_tid ?w) w'' = Done Undefined w''
                \<and> LRU_remove 0 ''k1'' w'' = Done Undefined w''"
    by blast
  have "lru_class ?obj = LRU \<and> 0 < lru_limit ?obj \<and> lru_length ?obj \<le> lru_limit ?obj"
    by simp
  from later [THEN mp, OF this]
  have 6: "\<forall>ops. length (pending (run 0 ops w') 0 ''k1'')
                      \<le> (if cached (run 0 ops w') 0 ''k1'' = None then 0 else 1)" .
  from 1 2 3 4 5 6
  have "\<exists>w' t_old.
        LRU_write 0 ''k1'' 7 (Some 500) ?w = Done Undefined w'
      \<and> pending ?w 0 ''k1'' = [t_old]
      \<and> w_timers w' t_old = None
      \<and> pending w' 0 ''k1'' = [w_next_tid ?w]
      \<and> (\<exists>w''. fire_timer (w_next_tid ?w) (sleep 500 w') = Done Undefined w''
             \<and> cached w'' 0 ''k1'' = None
             \<and> pending w'' 0 ''k1'' = []
             \<and> fire_timer (w_next_tid ?w) w'' = Done Undefined w''
             \<and> LRU_remove 0 ''k1'' w'' = Done Undefined w'')
      \<and> (\<forall>ops. length (pending (run 0 ops w') 0 ''k1'')
                  \<le> (if cached (run 0 ops w') 0 ''k1'' = None then 0 else 1))"
    by blast
  with W o present show ?thesis
    by (intro conjI)
qed

section \<open>What a read does\<close>

text \<open>No method of the cache returns a value.\<close>

lemma andThen_value:
  assumes "\<And>w'. value_of (f w') = None \<or> value_of (f w') = Some Undefined"
  shows "value_of (andThen r f) = None \<or> value_of (andThen r f) = Some Undefined"
  using assms by (cases r) simp_all


lemma LRU_write_value:
  "value_of (LRU_write this key val timeLimit w) = None
   \<or> value_of (LRU_write this key val timeLimit w) = Some Undefined"
  unfolding LRU_write_def
  by (intro andThen_value) (simp add: Let_def split_def split: option.splits)

lemma updateWrite_value:
  "value_of (updateWrite r key val timeLimit w) = None
   \<or> value_of (updateWrite r key val timeLimit w) = Some Undefined"
  using LRU_write_value [of r key val timeLimit w]
  by (simp add: updateWrite_def split: option.splits cls.splits)





















end
